theory Spec2Isabelle
  imports Main "HOL-Library.Sublist" "HOL-Library.Multiset"
begin

section \<open>Alias generator\<close>

text \<open>
  \<^verbatim>\<open>generateRandomAlias\<close> (MacroNoMore.cpp, lines 19-30) draws from the C library's
  \<^verbatim>\<open>rand()\<close>. The generator's hidden state is made explicit: \<open>rand\<close> is the sequence
  of values the successive calls return (each in \<open>0..RAND_MAX\<close>, so a \<open>nat\<close>), and a
  counter says how many calls have been made. \<^verbatim>\<open>sizeof(letters) - 1\<close> is the number of
  characters of the array without its terminating NUL, that is, the length of the string.
\<close>

definition letters :: string where
  "letters = ''ABCDEFGHIJKLMNOPQRSTUVWXYZabcdefghijklmnopqrstuvwxyz''"

definition alphanum :: string where
  "alphanum = ''0123456789ABCDEFGHIJKLMNOPQRSTUVWXYZabcdefghijklmnopqrstuvwxyz''"

text \<open>The loop \<^verbatim>\<open>for (int i = 1; i < len; ++i) alias += alphanum[rand() % 62]\<close>.\<close>

function alias_loop :: "(nat \<Rightarrow> nat) \<Rightarrow> nat \<Rightarrow> nat \<Rightarrow> nat \<Rightarrow> string \<Rightarrow> string \<times> nat" where
  "alias_loop rand len i c alias =
     (if i < len
      then alias_loop rand len (Suc i) (Suc c) (alias @ [alphanum ! (rand c mod length alphanum)])
      else (alias, c))"
  by pat_completeness auto
termination
  by (relation "measure (\<lambda>(rand, len, i, c, alias). len - i)") auto

declare alias_loop.simps [simp del]

definition generateRandomAlias :: "(nat \<Rightarrow> nat) \<Rightarrow> nat \<Rightarrow> string \<times> nat" where
  "generateRandomAlias rand c =
     (let len = 8;
          alias = [];
          alias = alias @ [letters ! (rand c mod length letters)]
      in alias_loop rand len 1 (Suc c) alias)"


section \<open>The program's data\<close>

text \<open>
  A \<^verbatim>\<open>SourceLocation\<close> as the SourceManager decodes it: a byte offset into the main
  file's buffer, or a file id and an offset into another file (a header).
  \<^verbatim>\<open>isInMainFile\<close> is the SourceManager's test. Locations inside macro expansions are
  not modelled.
\<close>

datatype SourceLocation = MainFile nat | OtherFile nat nat

fun isInMainFile :: "SourceLocation \<Rightarrow> bool" where
  "isInMainFile (MainFile offs) = True"
| "isInMainFile (OtherFile fid offs) = False"

text \<open>
  An \<^verbatim>\<open>llvm::APInt\<close>: a bit width and the bits, read as the unsigned number
  \<open>VAL < 2 ^ BitWidth\<close>. The sign bit is the top bit.
\<close>

record APInt =
  BitWidth :: nat
  VAL :: nat

definition isNegative :: "APInt \<Rightarrow> bool" where
  "isNegative a = (2 ^ (BitWidth a - 1) \<le> VAL a)"

text \<open>
  The AST nodes the visitor has a \<^verbatim>\<open>Visit...\<close> method for, each with what the method
  reads from it: the name (\<^verbatim>\<open>getNameAsString()\<close>, \<^verbatim>\<open>getNameInfo().getAsString()\<close>),
  the value (\<^verbatim>\<open>getValue()\<close>, \<^verbatim>\<open>getString()\<close>) and the location
  (\<^verbatim>\<open>getLocation()\<close>, \<^verbatim>\<open>getBeginLoc()\<close>). The traversal of the translation unit is the
  list of these nodes in the order the external tree walk reaches them.
\<close>

datatype node =
    VarDecl string SourceLocation
  | DeclRefExpr string SourceLocation
  | IntegerLiteral APInt SourceLocation
  | StringLiteral string SourceLocation
  | FunctionDecl string SourceLocation

text \<open>
  The visitor's two tables (lines 119-120) and the number of \<^verbatim>\<open>rand()\<close> calls made so
  far. \<^verbatim>\<open>nameLocations\<close> is only ever accessed with \<^verbatim>\<open>operator[]\<close>, which creates an
  empty vector for a missing key, so it is a total function with default \<open>[]\<close>.
\<close>

record visitor =
  aliases :: "string \<rightharpoonup> string"
  nameLocations :: "string \<Rightarrow> SourceLocation list"
  calls :: nat

definition initial :: visitor where
  "initial = \<lparr>aliases = Map.empty, nameLocations = (\<lambda>k. []), calls = 0\<rparr>"

section \<open>Integer literals as decimal text\<close>

text \<open>
  Modelled from the spec: \<^verbatim>\<open>llvm::APInt::toString\<close> is LLVM library code, not a file
  of the repository. The spec (4.1) describes the result as the decimal text of the value,
  with no prefix or suffix. The call on line 67, \<^verbatim>\<open>toString(value, 10, true, false)\<close>,
  passes the radix 10, \<^verbatim>\<open>true\<close> for the library's \<^verbatim>\<open>Signed\<close> parameter and \<^verbatim>\<open>false\<close>
  for \<^verbatim>\<open>formatAsCLiteral\<close>. With \<^verbatim>\<open>Signed\<close> set the library reads the bits as a
  two's-complement number: a value whose sign bit is set is written as a minus sign
  followed by the digits of its negation. In this the model follows the library and the
  argument the code passes, not the spec's word "unsigned". The digits are produced least
  significant first, each put in front of the ones already there. The model fixes the
  radix at 10, the only one the program uses.
\<close>

definition Digits :: string where
  "Digits = ''0123456789ABCDEFGHIJKLMNOPQRSTUVWXYZ''"

function digits_loop :: "nat \<Rightarrow> string \<Rightarrow> string" where
  "digits_loop N buf =
     (if N \<noteq> 0 then digits_loop (N div 10) (Digits ! (N mod 10) # buf) else buf)"
  by pat_completeness auto
termination
  by (relation "measure (\<lambda>(N, buf). N)") auto

declare digits_loop.simps [simp del]

definition APInt_toString10 :: "APInt \<Rightarrow> bool \<Rightarrow> string" where
  "APInt_toString10 a Signed =
     (if VAL a = 0 then ''0''
      else if Signed \<and> isNegative a
           then CHR ''-'' # digits_loop (2 ^ BitWidth a - VAL a) []
           else digits_loop (VAL a) [])"

text \<open>
  The spec's own wording of an integer literal's key (4.1): the value as an unsigned
  decimal numeral, no prefix, no suffix. This definition follows the spec, not the code.
\<close>

fun spec_decimal_numeral :: "nat \<Rightarrow> string" where
  "spec_decimal_numeral n =
     (if n < 10 then [Digits ! n]
      else spec_decimal_numeral (n div 10) @ [Digits ! (n mod 10)])"

declare spec_decimal_numeral.simps [simp del]

section \<open>The visitor\<close>

text \<open>
  Every \<^verbatim>\<open>Visit...\<close> method ends with the same two statements: the block
  \<^verbatim>\<open>if (aliases.find(name) == aliases.end()) { alias = generateRandomAlias(); aliases[name] = alias; }\<close>
  and \<^verbatim>\<open>nameLocations[name].push_back(loc)\<close>. They are written once here.
\<close>

definition assign_alias :: "(nat \<Rightarrow> nat) \<Rightarrow> string \<Rightarrow> visitor \<Rightarrow> visitor" where
  "assign_alias rand name v =
     (if aliases v name = None
      then (let (alias, c) = generateRandomAlias rand (calls v)
            in v\<lparr>aliases := (aliases v)(name \<mapsto> alias), calls := c\<rparr>)
      else v)"

definition push_back :: "string \<Rightarrow> SourceLocation \<Rightarrow> visitor \<Rightarrow> visitor" where
  "push_back name loc v = v\<lparr>nameLocations := (nameLocations v)(name := nameLocations v name @ [loc])\<rparr>"

definition isPredefinedIdentifier :: "string \<Rightarrow> bool" where
  "isPredefinedIdentifier name = (name \<in> set [''cout'', ''cin'', ''cerr'', ''clog''])"

definition isOperator :: "string \<Rightarrow> bool" where
  "isOperator name = prefix ''operator'' name"

definition VisitVarDecl :: "(nat \<Rightarrow> nat) \<Rightarrow> string \<Rightarrow> SourceLocation \<Rightarrow> visitor \<Rightarrow> visitor" where
  "VisitVarDecl rand name loc v =
     (if isInMainFile loc
      then push_back name loc (assign_alias rand name v)
      else v)"

definition VisitDeclRefExpr :: "(nat \<Rightarrow> nat) \<Rightarrow> string \<Rightarrow> SourceLocation \<Rightarrow> visitor \<Rightarrow> visitor" where
  "VisitDeclRefExpr rand name loc v =
     (if isInMainFile loc \<or> isPredefinedIdentifier name
      then (let name = (if isOperator name then drop 8 name else name)
            in push_back name loc (assign_alias rand name v))
      else v)"

definition VisitIntegerLiteral :: "(nat \<Rightarrow> nat) \<Rightarrow> APInt \<Rightarrow> SourceLocation \<Rightarrow> visitor \<Rightarrow> visitor" where
  "VisitIntegerLiteral rand val loc v =
     (if isInMainFile loc
      then (let valueStr = APInt_toString10 val True
            in push_back valueStr loc (assign_alias rand valueStr v))
      else v)"

definition VisitStringLiteral :: "(nat \<Rightarrow> nat) \<Rightarrow> string \<Rightarrow> SourceLocation \<Rightarrow> visitor \<Rightarrow> visitor" where
  "VisitStringLiteral rand str loc v =
     (if isInMainFile loc
      then (let val = [CHR 0x22] @ str @ [CHR 0x22]
            in push_back val loc (assign_alias rand val v))
      else v)"

definition VisitFunctionDecl :: "(nat \<Rightarrow> nat) \<Rightarrow> string \<Rightarrow> SourceLocation \<Rightarrow> visitor \<Rightarrow> visitor" where
  "VisitFunctionDecl rand name loc v =
     (if isInMainFile loc
      then push_back name loc (assign_alias rand name v)
      else v)"

text \<open>The tree walk calls the method of each node's kind, in traversal order.\<close>

fun visit :: "(nat \<Rightarrow> nat) \<Rightarrow> node \<Rightarrow> visitor \<Rightarrow> visitor" where
  "visit rand (VarDecl name loc) v = VisitVarDecl rand name loc v"
| "visit rand (DeclRefExpr name loc) v = VisitDeclRefExpr rand name loc v"
| "visit rand (IntegerLiteral val loc) v = VisitIntegerLiteral rand val loc v"
| "visit rand (StringLiteral str loc) v = VisitStringLiteral rand str loc v"
| "visit rand (FunctionDecl name loc) v = VisitFunctionDecl rand name loc v"

fun TraverseDecl :: "(nat \<Rightarrow> nat) \<Rightarrow> node list \<Rightarrow> visitor \<Rightarrow> visitor" where
  "TraverseDecl rand [] v = v"
| "TraverseDecl rand (n # ns) v = TraverseDecl rand ns (visit rand n v)"

section \<open>The rewrite buffer\<close>

text \<open>
  Modelled from the spec: \<^verbatim>\<open>clang::Rewriter\<close> and its \<^verbatim>\<open>RewriteBuffer\<close> are library
  code outside the repository. The spec (3, 4.4) describes a buffer that starts as a copy of
  the original text and takes edits addressed by original offsets, composing them whatever
  their lengths: it keeps, with the edited text, the change of length each edit made at its
  original offset, and places a new edit at its original offset plus the changes recorded at
  offsets up to it (as the library's \<^verbatim>\<open>RewriteBuffer\<close> does with its table of deltas).
  Only the main file's buffer is written to the output (line 160), so an edit at a
  location of another file does not change it. An edit that reaches beyond the end of the
  text is cut off by \<open>take\<close> and \<open>drop\<close> here; the library leaves it undefined, and the
  theorems about the rewritten buffer assume that every span lies within the buffer.
\<close>

record RewriteBuffer =
  Buffer :: string
  Deltas :: "(nat \<times> int) list"

definition initial_buffer :: "string \<Rightarrow> RewriteBuffer" where
  "initial_buffer code = \<lparr>Buffer = code, Deltas = []\<rparr>"

definition getMappedOffset :: "RewriteBuffer \<Rightarrow> nat \<Rightarrow> nat" where
  "getMappedOffset rb OrigOffset =
     nat (int OrigOffset + sum_list (map snd (filter (\<lambda>(offs, d). offs \<le> OrigOffset) (Deltas rb))))"

definition RewriteBuffer_ReplaceText :: "nat \<Rightarrow> nat \<Rightarrow> string \<Rightarrow> RewriteBuffer \<Rightarrow> RewriteBuffer" where
  "RewriteBuffer_ReplaceText OrigOffset OrigLength NewStr rb =
     (let RealOffset = getMappedOffset rb OrigOffset
      in \<lparr>Buffer = take RealOffset (Buffer rb) @ NewStr @ drop (RealOffset + OrigLength) (Buffer rb),
          Deltas = (if OrigLength \<noteq> length NewStr
                    then (OrigOffset, int (length NewStr) - int OrigLength) # Deltas rb
                    else Deltas rb)\<rparr>)"

fun ReplaceText :: "SourceLocation \<Rightarrow> nat \<Rightarrow> string \<Rightarrow> RewriteBuffer \<Rightarrow> RewriteBuffer" where
  "ReplaceText (MainFile offs) OrigLength NewStr rb = RewriteBuffer_ReplaceText offs OrigLength NewStr rb"
| "ReplaceText (OtherFile fid offs) OrigLength NewStr rb = rb"

section \<open>Rewriting and the definitions block\<close>

text \<open>
  Both loops run over the entries of the \<^verbatim>\<open>std::unordered_map\<close> \<^verbatim>\<open>aliases\<close>, in an order
  the language leaves open. The entries are passed in the order of iteration, \<open>entries\<close>:
  a list of (key, alias) pairs with each key once, whose map is \<open>aliases v\<close>.
\<close>

definition enumerates :: "(string \<times> string) list \<Rightarrow> visitor \<Rightarrow> bool" where
  "enumerates entries v = (distinct (map fst entries) \<and> map_of entries = aliases v)"

fun replace_at :: "string \<Rightarrow> string \<Rightarrow> SourceLocation list \<Rightarrow> RewriteBuffer \<Rightarrow> RewriteBuffer" where
  "replace_at key alias [] rb = rb"
| "replace_at key alias (loc # locs) rb = replace_at key alias locs (ReplaceText loc (length key) alias rb)"

fun ReplaceReferences :: "(string \<times> string) list \<Rightarrow> visitor \<Rightarrow> RewriteBuffer \<Rightarrow> RewriteBuffer" where
  "ReplaceReferences [] v rb = rb"
| "ReplaceReferences ((key, alias) # entries) v rb =
     ReplaceReferences entries v (replace_at key alias (nameLocations v key) rb)"

definition define_line :: "string \<times> string \<Rightarrow> string" where
  "define_line entry = ''#define '' @ snd entry @ '' '' @ fst entry @ [CHR 0x0A]"

definition InsertAliases :: "(string \<times> string) list \<Rightarrow> string" where
  "InsertAliases entries = concat (map define_line entries)"

text \<open>
  \<^verbatim>\<open>HandleTranslationUnit\<close> traverses, rewrites and writes the definitions;
  \<^verbatim>\<open>EndSourceFileAction\<close> then writes the main file's edited buffer to the same stream.
  The result is the pair of the two texts, in the order they are written.
\<close>

definition HandleTranslationUnit ::
  "(nat \<Rightarrow> nat) \<Rightarrow> ((string \<times> string) list) \<Rightarrow> string \<Rightarrow> node list \<Rightarrow> string \<times> string" where
  "HandleTranslationUnit rand entries code nodes =
     (let v = TraverseDecl rand nodes initial;
          rb = ReplaceReferences entries v (initial_buffer code)
      in (InsertAliases entries, Buffer rb))"

section \<open>The driver\<close>



section \<open>The lines of the definitions block\<close>

text \<open>
  The lines a reader finds in a text: the text cut at every line break, the line breaks
  left out; a last line without a line break counts when it is not empty. A
  macro-definition line is a line that begins with \<open>#define\<close> and a space.
\<close>

fun lines_acc :: "string \<Rightarrow> string \<Rightarrow> string list" where
  "lines_acc cur [] = (if cur = [] then [] else [cur])"
| "lines_acc cur (c # cs) =
     (if c = CHR 0x0A then cur # lines_acc [] cs else lines_acc (cur @ [c]) cs)"

definition lines_of :: "string \<Rightarrow> string list" where
  "lines_of txt = lines_acc [] txt"

definition definition_lines :: "string \<Rightarrow> string list" where
  "definition_lines txt = filter (prefix ''#define '') (lines_of txt)"

definition line_of_entry :: "string \<times> string \<Rightarrow> string" where
  "line_of_entry entry = ''#define '' @ snd entry @ '' '' @ fst entry"

section \<open>What a visit records\<close>

text \<open>
  The key and the location under which a node is recorded, read off the five methods:
  \<open>None\<close> where the method's guard fails. Lemma \<open>visit_key_of\<close> below shows that
  \<open>visit\<close> does exactly this.
\<close>

fun key_of :: "node \<Rightarrow> string option" where
  "key_of (VarDecl name loc) = (if isInMainFile loc then Some name else None)"
| "key_of (DeclRefExpr name loc) =
     (if isInMainFile loc \<or> isPredefinedIdentifier name
      then Some (if isOperator name then drop 8 name else name) else None)"
| "key_of (IntegerLiteral val loc) =
     (if isInMainFile loc then Some (APInt_toString10 val True) else None)"
| "key_of (StringLiteral str loc) =
     (if isInMainFile loc then Some ([CHR 0x22] @ str @ [CHR 0x22]) else None)"
| "key_of (FunctionDecl name loc) = (if isInMainFile loc then Some name else None)"

fun loc_of :: "node \<Rightarrow> SourceLocation" where
  "loc_of (VarDecl name loc) = loc"
| "loc_of (DeclRefExpr name loc) = loc"
| "loc_of (IntegerLiteral val loc) = loc"
| "loc_of (StringLiteral str loc) = loc"
| "loc_of (FunctionDecl name loc) = loc"

definition observed_keys :: "node list \<Rightarrow> string set" where
  "observed_keys ns = set (List.map_filter key_of ns)"

text \<open>Two sequences of \<^verbatim>\<open>rand()\<close> results for concrete runs: a constant one and a counter.\<close>

definition rand_const :: "nat \<Rightarrow> nat \<Rightarrow> nat" where
  "rand_const r i = r"

definition rand_count :: "nat \<Rightarrow> nat" where
  "rand_count i = i"

section \<open>Recorded spans and positions in the rewritten buffer\<close>

text \<open>
  The visitor records locations only; the span of an occurrence is what
  \<^verbatim>\<open>ReplaceReferences\<close> passes to \<^verbatim>\<open>ReplaceText\<close> for it: the location's offset and the
  length of the key. An edit is a span with the text put there. \<open>recorded_spans\<close> lists
  the edits of the main file in the order \<^verbatim>\<open>ReplaceReferences\<close> makes them.
\<close>

type_synonym edit = "nat \<times> nat \<times> string"

fun span_of :: "string \<Rightarrow> string \<Rightarrow> SourceLocation \<Rightarrow> edit option" where
  "span_of key alias (MainFile offs) = Some (offs, length key, alias)"
| "span_of key alias (OtherFile fid offs) = None"

definition recorded_spans :: "(string \<times> string) list \<Rightarrow> visitor \<Rightarrow> edit list" where
  "recorded_spans entries v =
     concat (map (\<lambda>(key, alias). List.map_filter (span_of key alias) (nameLocations v key)) entries)"

fun apply_edits :: "edit list \<Rightarrow> RewriteBuffer \<Rightarrow> RewriteBuffer" where
  "apply_edits [] rb = rb"
| "apply_edits ((offs, len, new) # es) rb = apply_edits es (RewriteBuffer_ReplaceText offs len new rb)"

text \<open>
  Two spans are apart when one starts before the other and ends at or before the other's
  start. A list of spans is non-overlapping when its members are pairwise apart; no span
  is apart from itself, so a span recorded twice overlaps.
\<close>

fun apart :: "edit \<Rightarrow> edit \<Rightarrow> bool" where
  "apart (o1, l1, a1) (o2, l2, a2) = ((o1 < o2 \<and> o1 + l1 \<le> o2) \<or> (o2 < o1 \<and> o2 + l2 \<le> o1))"

fun nonoverlapping :: "edit list \<Rightarrow> bool" where
  "nonoverlapping [] = True"
| "nonoverlapping (e # es) = (list_all (apart e) es \<and> nonoverlapping es)"

definition within :: "string \<Rightarrow> edit list \<Rightarrow> bool" where
  "within code es = list_all (\<lambda>(o1, l1, a1). o1 + l1 \<le> length code) es"

definition covered :: "edit list \<Rightarrow> nat \<Rightarrow> bool" where
  "covered es i = list_ex (\<lambda>(o1, l1, a1). o1 \<le> i \<and> i < o1 + l1) es"

definition no_start_in :: "edit list \<Rightarrow> nat \<Rightarrow> nat \<Rightarrow> bool" where
  "no_start_in es q m = list_all (\<lambda>e. fst e < q \<or> q + m \<le> fst e) es"

text \<open>
  Where original offsets land in the rewritten buffer: every edit changes the length of
  the text by the length of its new text minus the length of its span. A span's start
  moves by the changes of the edits that start before it; an original byte outside the
  spans moves by the changes of the edits that start at or before it.
\<close>

definition growth :: "edit \<Rightarrow> int" where
  "growth e = int (length (snd (snd e))) - int (fst (snd e))"

definition new_start :: "edit list \<Rightarrow> nat \<Rightarrow> nat" where
  "new_start es offs = nat (int offs + sum_list (map growth (filter (\<lambda>e. fst e < offs) es)))"

definition new_index :: "edit list \<Rightarrow> nat \<Rightarrow> nat" where
  "new_index es i = nat (int i + sum_list (map growth (filter (\<lambda>e. fst e \<le> i) es)))"

text \<open>
  The two halves of the frame property: every recorded span holds its alias in the
  rewritten buffer \<open>R\<close>, and every original byte outside the spans is in \<open>R\<close>, unchanged.
\<close>

definition spans_hold_alias :: "edit list \<Rightarrow> string \<Rightarrow> bool" where
  "spans_hold_alias es R =
     list_all (\<lambda>(o1, l1, a1). take (length a1) (drop (new_start es o1) R) = a1) es"

definition outside_unchanged :: "string \<Rightarrow> edit list \<Rightarrow> string \<Rightarrow> bool" where
  "outside_unchanged code es R =
     list_all (\<lambda>i. covered es i \<or> (new_index es i < length R \<and> R ! new_index es i = code ! i))
       [0..<length code]"

text \<open>
  The rewritten text written out in one pass over the original: for edits in increasing
  order of offset, copy the original up to the next edit, put the edit's text, and go on
  after its span. \<open>chain pos es\<close> says that \<open>es\<close> is such a list from offset \<open>pos\<close> on:
  each edit starts at or after the end of the one before, and after its start.
\<close>

fun one_pass :: "string \<Rightarrow> nat \<Rightarrow> edit list \<Rightarrow> string" where
  "one_pass code pos [] = drop pos code"
| "one_pass code pos ((o1, l1, a1) # es) = take (o1 - pos) (drop pos code) @ a1 @ one_pass code (o1 + l1) es"

fun chain :: "nat \<Rightarrow> edit list \<Rightarrow> bool" where
  "chain pos [] = True"
| "chain pos ((o1, l1, a1) # es) = (pos \<le> o1 \<and> chain (max (o1 + l1) (Suc o1)) es)"

section \<open>Expanding the macros again\<close>

text \<open>
  The round trip in the spec's words (8): substitute each alias in the rewritten output
  with the right-hand side of its definition, at every one of its occurrences. The text
  is read from the left; where the alias of an emitted definition begins, the definition's
  key is put for it and reading goes on after the alias; elsewhere the character is kept.
  This definition follows the spec, not the code. The right-hand side of the definition
  line \<open>define_line (key, alias)\<close> is \<open>key\<close>.
\<close>

definition alias_at :: "(string \<times> string) list \<Rightarrow> string \<Rightarrow> (string \<times> string) option" where
  "alias_at entries txt = find (\<lambda>(key, alias). alias \<noteq> [] \<and> prefix alias txt) entries"

function expand_aliases :: "(string \<times> string) list \<Rightarrow> string \<Rightarrow> string" where
  "expand_aliases entries [] = []"
| "expand_aliases entries (c # cs) =
     (case alias_at entries (c # cs) of
        Some (key, alias) \<Rightarrow> key @ expand_aliases entries (drop (length alias) (c # cs))
      | None \<Rightarrow> c # expand_aliases entries cs)"
  by pat_completeness auto
termination
proof (relation "measure (\<lambda>(entries, txt). length txt)")
  fix entries :: "(string \<times> string) list" and c cs x2 x y
  assume "alias_at entries (c # cs) = Some x2" and "(x, y) = x2"
  then have "y \<noteq> []"
    by (auto simp: alias_at_def find_Some_iff)
  then show "((entries, drop (length y) (c # cs)), (entries, c # cs))
              \<in> measure (\<lambda>(entries, txt). length txt)"
    by (cases y) simp_all
qed simp_all

declare expand_aliases.simps [simp del]

text \<open>
  Two conditions on a run, for the round trip. \<open>spelled\<close>: at every location recorded in
  the main file the original text, for the length of the key, is the key. \<open>alias_free_outside\<close>:
  no alias of the table begins at a place of the rewritten buffer \<open>R\<close> that holds an
  original byte from outside the spans.
\<close>

fun spelled_at :: "string \<Rightarrow> string \<Rightarrow> SourceLocation \<Rightarrow> bool" where
  "spelled_at code key (MainFile offs) = (take (length key) (drop offs code) = key)"
| "spelled_at code key (OtherFile fid offs) = True"

definition spelled :: "string \<Rightarrow> (string \<times> string) list \<Rightarrow> visitor \<Rightarrow> bool" where
  "spelled code entries v =
     list_all (\<lambda>entry. list_all (spelled_at code (fst entry)) (nameLocations v (fst entry))) entries"

definition alias_free_outside :: "(string \<times> string) list \<Rightarrow> string \<Rightarrow> edit list \<Rightarrow> string \<Rightarrow> bool" where
  "alias_free_outside entries code es R =
     list_all (\<lambda>i. covered es i \<or> alias_at entries (drop (new_index es i) R) = None)
       [0..<length code]"

section \<open>Example inputs\<close>

text \<open>
  \<^verbatim>\<open>int x = 5;\<close> (the spec's example 1): the declaration of \<open>x\<close> at offset 4 and the
  literal at offset 8.
\<close>

definition example_code :: string where
  "example_code = ''int x = 5;''"

definition example_nodes :: "node list" where
  "example_nodes = [VarDecl ''x'' (MainFile 4), IntegerLiteral \<lparr>BitWidth = 32, VAL = 5\<rparr> (MainFile 8)]"

text \<open>
  \<^verbatim>\<open>long x=0x8AC7230489E80000+x;\<close>: the declaration of \<open>x\<close> at offset 5, the literal
  (64 bits wide, value \<open>10 ^ 19\<close>, so with the sign bit set) at offset 7 and the reference to \<open>x\<close> at offset 26.
\<close>

definition overlap_code :: string where
  "overlap_code = ''long x=0x8AC7230489E80000+x;''"

definition overlap_nodes :: "node list" where
  "overlap_nodes =
     [VarDecl ''x'' (MainFile 5),
      IntegerLiteral \<lparr>BitWidth = 64, VAL = 10000000000000000000\<rparr> (MainFile 7),
      DeclRefExpr ''x'' (MainFile 26)]"

text \<open>
  \<^verbatim>\<open>int x=0x10;\<close>: the declaration of \<open>x\<close> at offset 4 and the literal (32 bits wide,
  value 16) at offset 6.
\<close>

definition hex_code :: string where
  "hex_code = ''int x=0x10;''"

definition hex_nodes :: "node list" where
  "hex_nodes = [VarDecl ''x'' (MainFile 4), IntegerLiteral \<lparr>BitWidth = 32, VAL = 16\<rparr> (MainFile 6)]"

text \<open>
  \<^verbatim>\<open>x=operator+(a,b);\<close>: the references to \<open>x\<close> at offset 0, to \<^verbatim>\<open>operator+\<close>,
  written as a name, at offset 2, to \<open>a\<close> at offset 12 and to \<open>b\<close> at offset 14.
\<close>

definition operator_code :: string where
  "operator_code = ''x=operator+(a,b);''"

definition operator_nodes :: "node list" where
  "operator_nodes =
     [DeclRefExpr ''x'' (MainFile 0), DeclRefExpr ''operator+'' (MainFile 2),
      DeclRefExpr ''a'' (MainFile 12), DeclRefExpr ''b'' (MainFile 14)]"

definition operator_entries :: "(string \<times> string) list" where
  "operator_entries =
     [(''x'', ''A1234567''), (''+'', ''I9ABCDEF''), (''a'', ''QHIJKLMN''), (''b'', ''YPQRSTUV'')]"

text \<open>
  \<^verbatim>\<open>const char *s = "\n#define B c";\<close>: the declaration of \<open>s\<close> at offset 12 and the
  string literal at offset 16, whose content is a line break followed by
  \<^verbatim>\<open>#define B c\<close>.
\<close>

definition newline_code :: string where
  "newline_code = ''const char *s = '' @ [CHR 0x22, CHR 0x5C] @ ''n#define B c'' @ [CHR 0x22] @ '';''"

definition newline_nodes :: "node list" where
  "newline_nodes =
     [VarDecl ''s'' (MainFile 12), StringLiteral (CHR 0x0A # ''#define B c'') (MainFile 16)]"

definition newline_entries :: "(string \<times> string) list" where
  "newline_entries =
     [(''s'', ''A1234567''), (CHR 0x22 # CHR 0x0A # ''#define B c'' @ [CHR 0x22], ''I9ABCDEF'')]"



section \<open>The shape of an alias\<close>

definition alias_shape :: "string \<Rightarrow> bool" where
  "alias_shape a = (length a = 8 \<and> hd a \<in> set letters \<and> set (tl a) \<subseteq> set alphanum)"

section \<open>The alias generator's shape\<close>

lemma length_letters: "length letters = 52"
  by (simp add: letters_def)

lemma length_alphanum: "length alphanum = 62"
  by (simp add: alphanum_def)

lemma alias_loop_unfold:
  "alias_loop rand len i c a =
     (a @ map (\<lambda>j. alphanum ! (rand (c + j) mod length alphanum)) [0..<len - i],
      c + (len - i))"
proof (induction rand len i c a rule: alias_loop.induct)
  case (1 rand len i c a)
  show ?case
  proof (cases "i < len")
    case True
    then have eq: "len - i = Suc (len - Suc i)" by simp
    have "[0..<Suc (len - Suc i)] = 0 # map Suc [0..<len - Suc i]"
      by (simp add: upt_conv_Cons map_Suc_upt del: upt_Suc)
    with True 1 eq show ?thesis
      by (subst alias_loop.simps) (simp add: comp_def del: upt_Suc)
  next
    case False
    then show ?thesis by (subst alias_loop.simps) simp
  qed
qed

lemma generateRandomAlias_eq:
  "generateRandomAlias rand c =
     (letters ! (rand c mod 52) # map (\<lambda>j. alphanum ! (rand (Suc c + j) mod 62)) [0..<7],
      c + 8)"
  by (simp add: generateRandomAlias_def alias_loop_unfold length_letters length_alphanum
           del: upt_Suc)

lemma generateRandomAlias_length: "length (fst (generateRandomAlias rand c)) = 8"
  by (simp add: generateRandomAlias_eq)

lemma generateRandomAlias_hd: "hd (fst (generateRandomAlias rand c)) \<in> set letters"
  by (simp add: generateRandomAlias_eq length_letters)

lemma generateRandomAlias_tl:
  "set (tl (fst (generateRandomAlias rand c))) \<subseteq> set alphanum"
proof -
  have "alphanum ! (k mod 62) \<in> set alphanum" for k
    by (rule nth_mem) (simp add: length_alphanum)
  then show ?thesis
    by (auto simp: generateRandomAlias_eq simp del: upt_Suc)
qed



lemma distinct_letters: "distinct letters"
  by (simp add: letters_def)

lemma distinct_alphanum: "distinct alphanum"
  by (simp add: alphanum_def)

text \<open>
  C7. Every alias has length 8; its first character is one of the 52 letters and each of
  the other seven is one of the 62 letters and digits.
\<close>

theorem C7_alias_shape:
  "length (fst (generateRandomAlias rand c)) = 8
   \<and> hd (fst (generateRandomAlias rand c)) \<in> set letters
   \<and> (\<forall>ch \<in> set (tl (fst (generateRandomAlias rand c))). ch \<in> set alphanum)
   \<and> card (set letters) = 52 \<and> card (set alphanum) = 62"
proof -
  have "card (set letters) = 52"
    using distinct_card [OF distinct_letters] by (simp add: length_letters)
  moreover have "card (set alphanum) = 62"
    using distinct_card [OF distinct_alphanum] by (simp add: length_alphanum)
  ultimately show ?thesis
    using generateRandomAlias_length [of rand c] generateRandomAlias_hd [of rand c]
      generateRandomAlias_tl [of rand c]
    by blast
qed

lemma alias_rand_count_0: "generateRandomAlias rand_count 0 = (''A1234567'', 8)"
  by (simp add: generateRandomAlias_eq rand_count_def letters_def alphanum_def upt_conv_Cons
           del: upt_Suc)

theorem C7_alias_shape_witness:
  "fst (generateRandomAlias rand_count 0) = ''A1234567''
   \<and> length ''A1234567'' = 8
   \<and> CHR ''A'' \<in> set letters
   \<and> set ''1234567'' \<subseteq> set alphanum"
  using C7_alias_shape [of rand_count 0] by (auto simp: alias_rand_count_0)


section \<open>The allow-list and the eligibility guards\<close>

lemma isPredefinedIdentifier_not_operator:
  "isPredefinedIdentifier name \<Longrightarrow> \<not> isOperator name"
  by (auto simp: isPredefinedIdentifier_def isOperator_def)

lemma assign_alias_nameLocations [simp]:
  "nameLocations (assign_alias rand k v) = nameLocations v"
  by (simp add: assign_alias_def split: prod.splits)

lemma push_back_aliases [simp]: "aliases (push_back k loc v) = aliases v"
  by (simp add: push_back_def)

lemma push_back_calls [simp]: "calls (push_back k loc v) = calls v"
  by (simp add: push_back_def)

lemma push_back_nameLocations:
  "nameLocations (push_back k loc v) k' =
     (if k' = k then nameLocations v k @ [loc] else nameLocations v k')"
  by (simp add: push_back_def)

lemma assign_alias_present: "aliases v k = Some a \<Longrightarrow> assign_alias rand k v = v"
  by (simp add: assign_alias_def)

lemma assign_alias_absent:
  "aliases v k = None \<Longrightarrow>
   aliases (assign_alias rand k v) = (aliases v)(k \<mapsto> fst (generateRandomAlias rand (calls v)))"
  by (simp add: assign_alias_def split: prod.splits)

lemma assign_alias_other: "k' \<noteq> k \<Longrightarrow> aliases (assign_alias rand k v) k' = aliases v k'"
  by (simp add: assign_alias_def split: prod.splits)

lemma assign_alias_keeps:
  "aliases v k' = Some a \<Longrightarrow> aliases (assign_alias rand k v) k' = Some a"
  by (cases "k' = k") (simp_all add: assign_alias_present assign_alias_other)

lemma assign_alias_defined: "aliases (assign_alias rand k v) k \<noteq> None"
  by (cases "aliases v k") (simp_all add: assign_alias_absent assign_alias_present)

text \<open>
  C10. The allow-list is exactly cout, cin, cerr and clog, and only the method for
  references consults it: a variable or function declaration, an integer literal or a
  string literal outside the main file leaves the visitor unchanged whatever its name or
  value, while a reference outside the main file is recorded exactly when its name is on
  the list.
\<close>

theorem C10_allow_list:
  "(isPredefinedIdentifier name \<longleftrightarrow> name \<in> {''cout'', ''cin'', ''cerr'', ''clog''})
   \<and> (\<not> isInMainFile loc \<longrightarrow>
         VisitVarDecl rand name loc v = v \<and> VisitFunctionDecl rand name loc v = v
         \<and> VisitIntegerLiteral rand val loc v = v \<and> VisitStringLiteral rand str loc v = v)
   \<and> (\<not> isInMainFile loc \<and> \<not> isPredefinedIdentifier name \<longrightarrow>
         VisitDeclRefExpr rand name loc v = v)
   \<and> (\<not> isInMainFile loc \<and> isPredefinedIdentifier name \<longrightarrow>
         nameLocations (VisitDeclRefExpr rand name loc v) name = nameLocations v name @ [loc]
         \<and> aliases (VisitDeclRefExpr rand name loc v) name \<noteq> None)"
proof -
  have a: "isPredefinedIdentifier name \<longleftrightarrow> name \<in> {''cout'', ''cin'', ''cerr'', ''clog''}"
    by (simp add: isPredefinedIdentifier_def)
  have b: "VisitVarDecl rand name loc v = v \<and> VisitFunctionDecl rand name loc v = v
         \<and> VisitIntegerLiteral rand val loc v = v \<and> VisitStringLiteral rand str loc v = v"
    if "\<not> isInMainFile loc"
    using that
    by (simp add: VisitVarDecl_def VisitFunctionDecl_def VisitIntegerLiteral_def
        VisitStringLiteral_def)
  have c: "VisitDeclRefExpr rand name loc v = v"
    if "\<not> isInMainFile loc \<and> \<not> isPredefinedIdentifier name"
    using that by (simp add: VisitDeclRefExpr_def)
  have d: "nameLocations (VisitDeclRefExpr rand name loc v) name = nameLocations v name @ [loc]
         \<and> aliases (VisitDeclRefExpr rand name loc v) name \<noteq> None"
    if "\<not> isInMainFile loc \<and> isPredefinedIdentifier name"
    using that isPredefinedIdentifier_not_operator [of name]
    by (simp add: VisitDeclRefExpr_def push_back_nameLocations assign_alias_defined)
  from a b c d show ?thesis by blast
qed

theorem C10_allow_list_witness:
  "isPredefinedIdentifier ''cout''
   \<and> \<not> isInMainFile (OtherFile 1 120)
   \<and> VisitVarDecl rand_count ''cout'' (OtherFile 1 120) initial = initial
   \<and> VisitFunctionDecl rand_count ''cout'' (OtherFile 1 120) initial = initial
   \<and> nameLocations (VisitDeclRefExpr rand_count ''cout'' (OtherFile 1 120) initial) ''cout''
       = [OtherFile 1 120]"
proof -
  have p: "isPredefinedIdentifier ''cout''" by (simp add: isPredefinedIdentifier_def)
  have q: "\<not> isInMainFile (OtherFile 1 120)" by simp
  show ?thesis
    using C10_allow_list [of "''cout''" "OtherFile 1 120" rand_count initial] p q
    by (simp add: initial_def)
qed


section \<open>Operator names\<close>

lemma isOperator_split: "isOperator name \<Longrightarrow> name = ''operator'' @ drop 8 name"
  by (auto simp: isOperator_def prefix_def)

text \<open>
  C5. A reference that is eligible and whose name begins with "operator" is recorded under
  the text after these eight characters: its location is appended to the locations of that
  key, nothing is recorded under any other key, and when the suffix is already a key the
  reference joins that key's group and the aliases stay as they are.
\<close>

theorem C5_operator_key:
  assumes "isOperator name" and "isInMainFile loc \<or> isPredefinedIdentifier name"
  shows "name = ''operator'' @ drop 8 name
     \<and> key_of (DeclRefExpr name loc) = Some (drop 8 name)
     \<and> nameLocations (VisitDeclRefExpr rand name loc v) (drop 8 name)
         = nameLocations v (drop 8 name) @ [loc]
     \<and> aliases (VisitDeclRefExpr rand name loc v) (drop 8 name) \<noteq> None
     \<and> (\<forall>k. k \<noteq> drop 8 name \<longrightarrow>
           nameLocations (VisitDeclRefExpr rand name loc v) k = nameLocations v k
           \<and> aliases (VisitDeclRefExpr rand name loc v) k = aliases v k)
     \<and> (aliases v (drop 8 name) \<noteq> None \<longrightarrow>
           aliases (VisitDeclRefExpr rand name loc v) = aliases v)"
proof -
  have eq: "VisitDeclRefExpr rand name loc v
            = push_back (drop 8 name) loc (assign_alias rand (drop 8 name) v)"
    using assms by (simp add: VisitDeclRefExpr_def Let_def)
  have "aliases v (drop 8 name) \<noteq> None \<Longrightarrow> assign_alias rand (drop 8 name) v = v"
    by (auto simp: assign_alias_present)
  then show ?thesis
    using assms isOperator_split [OF assms(1)]
    by (simp add: eq push_back_nameLocations assign_alias_defined assign_alias_other)
qed

theorem C5_operator_key_witness:
  "isOperator ''operator+'' \<and> isInMainFile (MainFile 9)
   \<and> key_of (DeclRefExpr ''operator+'' (MainFile 9)) = Some ''+''
   \<and> nameLocations (VisitDeclRefExpr rand_count ''operator+'' (MainFile 9)
         (VisitDeclRefExpr rand_count ''operator+'' (MainFile 3) initial)) ''+''
       = [MainFile 3, MainFile 9]"
proof -
  have p: "isOperator ''operator+''" by (simp add: isOperator_def)
  have q: "isInMainFile (MainFile 9) \<or> isPredefinedIdentifier ''operator+''" by simp
  have r: "isInMainFile (MainFile 3) \<or> isPredefinedIdentifier ''operator+''" by simp
  show ?thesis
    using C5_operator_key [OF p q, of rand_count "VisitDeclRefExpr rand_count ''operator+'' (MainFile 3) initial"]
      C5_operator_key [OF p r, of rand_count initial] p
    by (simp add: initial_def)
qed

section \<open>Alias entries are created once\<close>

lemma visit_key_of:
  "visit rand n v =
     (case key_of n of None \<Rightarrow> v
      | Some k \<Rightarrow> push_back k (loc_of n) (assign_alias rand k v))"
  by (cases n)
    (simp_all add: VisitVarDecl_def VisitDeclRefExpr_def VisitIntegerLiteral_def
      VisitStringLiteral_def VisitFunctionDecl_def Let_def)

lemma visit_keeps: "aliases v k = Some a \<Longrightarrow> aliases (visit rand n v) k = Some a"
  by (simp add: visit_key_of assign_alias_keeps split: option.splits)

lemma TraverseDecl_keeps:
  "aliases v k = Some a \<Longrightarrow> aliases (TraverseDecl rand ns v) k = Some a"
  by (induction ns arbitrary: v) (simp_all add: visit_keeps)

lemma TraverseDecl_append:
  "TraverseDecl rand (ns @ ms) v = TraverseDecl rand ms (TraverseDecl rand ns v)"
  by (induction ns arbitrary: v) simp_all

lemma dom_visit:
  "dom (aliases (visit rand n v)) = dom (aliases v) \<union> set_option (key_of n)"
proof (cases "key_of n")
  case None
  then show ?thesis by (simp add: visit_key_of)
next
  case (Some k)
  show ?thesis
  proof (cases "aliases v k")
    case None
    with Some show ?thesis by (simp add: visit_key_of assign_alias_absent)
  next
    case (Some a)
    with \<open>key_of n = Some k\<close> show ?thesis
      by (auto simp: visit_key_of assign_alias_present)
  qed
qed

lemma dom_TraverseDecl:
  "dom (aliases (TraverseDecl rand ns v)) = dom (aliases v) \<union> observed_keys ns"
proof (induction ns arbitrary: v)
  case Nil
  then show ?case by (simp add: observed_keys_def map_filter_simps)
next
  case (Cons n ns)
  have "observed_keys (n # ns) = set_option (key_of n) \<union> observed_keys ns"
    by (cases "key_of n") (simp_all add: observed_keys_def map_filter_simps)
  with Cons show ?case by (auto simp: dom_visit)
qed

text \<open>
  C8. An alias entry is created at the first occurrence of its key, with the alias the
  generator returns then, and no later visit changes it: a visit of a key that has an
  entry leaves the whole alias table as it is and appends the location to the key's
  locations; an entry, once there, is the same after every further stretch of the
  traversal. So after a traversal from the empty tables the keys with an entry are
  exactly the keys observed.
\<close>

theorem C8_alias_once:
  "(key_of n = Some k \<and> aliases v k = None \<longrightarrow>
      aliases (visit rand n v) k = Some (fst (generateRandomAlias rand (calls v))))
   \<and> (key_of n = Some k \<and> aliases v k \<noteq> None \<longrightarrow>
      aliases (visit rand n v) = aliases v
      \<and> nameLocations (visit rand n v) k = nameLocations v k @ [loc_of n])
   \<and> (aliases (TraverseDecl rand pre initial) k = Some a \<longrightarrow>
      aliases (TraverseDecl rand (pre @ post) initial) k = Some a)
   \<and> dom (aliases (TraverseDecl rand pre initial)) = observed_keys pre"
proof -
  have a: "aliases (visit rand n v) k = Some (fst (generateRandomAlias rand (calls v)))"
    if "key_of n = Some k \<and> aliases v k = None"
    using that by (simp add: visit_key_of assign_alias_absent)
  have b: "aliases (visit rand n v) = aliases v
      \<and> nameLocations (visit rand n v) k = nameLocations v k @ [loc_of n]"
    if "key_of n = Some k \<and> aliases v k \<noteq> None"
    using that by (auto simp: visit_key_of assign_alias_present push_back_nameLocations)
  have c: "aliases (TraverseDecl rand (pre @ post) initial) k = Some a"
    if "aliases (TraverseDecl rand pre initial) k = Some a"
    using that by (simp add: TraverseDecl_append TraverseDecl_keeps)
  have d: "dom (aliases (TraverseDecl rand pre initial)) = observed_keys pre"
    by (simp add: dom_TraverseDecl initial_def)
  from a b c d show ?thesis by blast
qed


lemma first_visit_x:
  "aliases (TraverseDecl rand_count [VarDecl ''x'' (MainFile 4)] initial) ''x'' = Some ''A1234567''"
  by (simp add: VisitVarDecl_def assign_alias_def initial_def alias_rand_count_0)

theorem C8_alias_once_witness:
  "key_of (DeclRefExpr ''x'' (MainFile 10)) = Some ''x''
   \<and> aliases (TraverseDecl rand_count [VarDecl ''x'' (MainFile 4)] initial) ''x'' = Some ''A1234567''
   \<and> aliases (TraverseDecl rand_count ([VarDecl ''x'' (MainFile 4)] @ [DeclRefExpr ''x'' (MainFile 10)]) initial) ''x''
       = Some ''A1234567''
   \<and> nameLocations (visit rand_count (DeclRefExpr ''x'' (MainFile 10))
         (TraverseDecl rand_count [VarDecl ''x'' (MainFile 4)] initial)) ''x''
       = [MainFile 4, MainFile 10]"
proof -
  have k: "key_of (DeclRefExpr ''x'' (MainFile 10)) = Some ''x''"
    by (simp add: isOperator_def)
  have n: "nameLocations (TraverseDecl rand_count [VarDecl ''x'' (MainFile 4)] initial) ''x'' = [MainFile 4]"
    by (simp add: VisitVarDecl_def push_back_nameLocations initial_def)
  show ?thesis
    using C8_alias_once [of "DeclRefExpr ''x'' (MainFile 10)" "''x''"
        "TraverseDecl rand_count [VarDecl ''x'' (MainFile 4)] initial" rand_count
        "[VarDecl ''x'' (MainFile 4)]" "''A1234567''" "[DeclRefExpr ''x'' (MainFile 10)]"]
      k n first_visit_x
    by simp
qed

section \<open>Keys of integer literals\<close>

lemma digits_loop_0: "digits_loop 0 buf = buf"
  by (subst digits_loop.simps) simp

lemma digits_loop_spec: "0 < n \<Longrightarrow> digits_loop n buf = spec_decimal_numeral n @ buf"
proof (induction n buf rule: digits_loop.induct)
  case (1 N buf)
  show ?case
  proof (cases "N < 10")
    case True
    with 1(2) show ?thesis
      by (subst digits_loop.simps, subst spec_decimal_numeral.simps) (simp add: digits_loop_0)
  next
    case False
    then have "0 < N div 10" by simp
    with 1 False show ?thesis
      by (subst digits_loop.simps, subst spec_decimal_numeral.simps) simp
  qed
qed

lemma spec_decimal_numeral_0: "spec_decimal_numeral 0 = ''0''"
  by (subst spec_decimal_numeral.simps) (simp add: Digits_def)

lemma APInt_toString10_signed:
  assumes "VAL val < 2 ^ BitWidth val"
  shows "APInt_toString10 val True =
     (if isNegative val then CHR ''-'' # spec_decimal_numeral (2 ^ BitWidth val - VAL val)
      else spec_decimal_numeral (VAL val))"
proof (cases "VAL val = 0")
  case True
  then show ?thesis
    by (simp add: APInt_toString10_def isNegative_def spec_decimal_numeral_0)
next
  case False
  with assms show ?thesis
    by (simp add: APInt_toString10_def digits_loop_spec)
qed

text \<open>
  C4, as the code has it. The key of an eligible integer literal is the decimal text of its
  value read as a signed two's-complement number of the literal's width (the call passes
  \<^verbatim>\<open>Signed = true\<close>): when the sign bit is clear it is the unsigned decimal numeral of
  the value, and when the sign bit is set it is a minus sign followed by the decimal
  numeral of \<open>2 ^ width - value\<close>. The literal is recorded under that key. The node
  carries neither the spelling nor the suffix, so the key does not depend on them.
\<close>

theorem C4_integer_key_signed:
  assumes "isInMainFile loc" and "VAL val < 2 ^ BitWidth val"
  shows "key_of (IntegerLiteral val loc) =
      Some (if isNegative val then CHR ''-'' # spec_decimal_numeral (2 ^ BitWidth val - VAL val)
            else spec_decimal_numeral (VAL val))
    \<and> (\<exists>key. key_of (IntegerLiteral val loc) = Some key
          \<and> nameLocations (VisitIntegerLiteral rand val loc v) key = nameLocations v key @ [loc]
          \<and> aliases (VisitIntegerLiteral rand val loc v) key \<noteq> None)"
proof -
  have "nameLocations (VisitIntegerLiteral rand val loc v) (APInt_toString10 val True)
          = nameLocations v (APInt_toString10 val True) @ [loc]
        \<and> aliases (VisitIntegerLiteral rand val loc v) (APInt_toString10 val True) \<noteq> None"
    using assms(1)
    by (simp add: VisitIntegerLiteral_def Let_def push_back_nameLocations assign_alias_defined)
  then show ?thesis
    using assms by (simp add: APInt_toString10_signed)
qed

lemma spec_decimal_numeral_5: "spec_decimal_numeral 5 = ''5''"
  by (subst spec_decimal_numeral.simps) (simp add: Digits_def)

lemma spec_decimal_numeral_1: "spec_decimal_numeral (Suc 0) = ''1''"
  by (subst spec_decimal_numeral.simps) (simp add: Digits_def)

theorem C4_integer_key_signed_witness:
  "isInMainFile (MainFile 8) \<and> VAL \<lparr>BitWidth = 32, VAL = 5\<rparr> < 2 ^ BitWidth \<lparr>BitWidth = 32, VAL = 5\<rparr>
   \<and> key_of (IntegerLiteral \<lparr>BitWidth = 32, VAL = 5\<rparr> (MainFile 8)) = Some ''5''
   \<and> key_of (IntegerLiteral \<lparr>BitWidth = 32, VAL = 4294967295\<rparr> (MainFile 8)) = Some ''-1''"
proof -
  have m: "isInMainFile (MainFile 8)" by simp
  have a: "VAL \<lparr>BitWidth = 32, VAL = 5\<rparr> < 2 ^ BitWidth \<lparr>BitWidth = 32, VAL = 5\<rparr>" by simp
  have b: "VAL \<lparr>BitWidth = 32, VAL = 4294967295\<rparr> < 2 ^ BitWidth \<lparr>BitWidth = 32, VAL = 4294967295\<rparr>"
    by simp
  from C4_integer_key_signed [OF m a] C4_integer_key_signed [OF m b] a
  show ?thesis
    by (simp add: isNegative_def spec_decimal_numeral_5 spec_decimal_numeral_1)
qed

lemma spec_decimal_numeral_4294967295: "spec_decimal_numeral 4294967295 = ''4294967295''"
  by (simp add: spec_decimal_numeral.simps Digits_def)

lemma toString_all_ones_32: "APInt_toString10 \<lparr>BitWidth = 32, VAL = 4294967295\<rparr> True = ''-1''"
  by (simp add: APInt_toString10_def isNegative_def digits_loop.simps Digits_def)

lemma toString_all_ones_64:
  "APInt_toString10 \<lparr>BitWidth = 64, VAL = 4294967295\<rparr> True = ''4294967295''"
  by (simp add: APInt_toString10_def isNegative_def digits_loop.simps Digits_def)

text \<open>
  C4 as the spec words it fails: the literal \<^verbatim>\<open>4294967295u\<close> (32 bits, all ones) gets
  the key \<open>-1\<close>, not its unsigned decimal numeral, and nothing is recorded under
  \<open>4294967295\<close>. The key depends on the literal's type as well: the same value as a
  64-bit literal (\<^verbatim>\<open>4294967295l\<close>) gets the key \<open>4294967295\<close>.
\<close>

theorem C4_unsigned_counterexample:
  "key_of (IntegerLiteral \<lparr>BitWidth = 32, VAL = 4294967295\<rparr> (MainFile 13)) = Some ''-1''
   \<and> spec_decimal_numeral 4294967295 = ''4294967295''
   \<and> key_of (IntegerLiteral \<lparr>BitWidth = 32, VAL = 4294967295\<rparr> (MainFile 13))
       \<noteq> Some (spec_decimal_numeral (VAL \<lparr>BitWidth = 32, VAL = 4294967295\<rparr>))
   \<and> aliases (VisitIntegerLiteral rand_count \<lparr>BitWidth = 32, VAL = 4294967295\<rparr> (MainFile 13) initial)
        ''4294967295'' = None
   \<and> key_of (IntegerLiteral \<lparr>BitWidth = 64, VAL = 4294967295\<rparr> (MainFile 13)) = Some ''4294967295''"
  by (simp add: toString_all_ones_32 toString_all_ones_64 spec_decimal_numeral_4294967295
      VisitIntegerLiteral_def assign_alias_def initial_def Let_def split: prod.splits)

section \<open>The driver's exit status\<close>







section \<open>The rewritten buffer in one pass\<close>


lemma apply_edits_append: "apply_edits (xs @ ys) rb = apply_edits ys (apply_edits xs rb)"
  by (induction xs arbitrary: rb) auto

lemma replace_at_apply_edits:
  "replace_at key al locs rb = apply_edits (List.map_filter (span_of key al) locs) rb"
proof (induction locs arbitrary: rb)
  case Nil
  then show ?case by (simp add: map_filter_simps)
next
  case (Cons loc locs)
  then show ?case by (cases loc) (simp_all add: map_filter_simps)
qed

lemma ReplaceReferences_apply_edits:
  "ReplaceReferences entries v rb = apply_edits (recorded_spans entries v) rb"
proof (induction entries arbitrary: rb)
  case Nil
  then show ?case by (simp add: recorded_spans_def)
next
  case (Cons entry entries)
  obtain key al where entry: "entry = (key, al)" by (cases entry)
  have "recorded_spans (entry # entries) v
        = List.map_filter (span_of key al) (nameLocations v key) @ recorded_spans entries v"
    by (simp add: recorded_spans_def entry)
  with Cons show ?case
    by (simp add: entry apply_edits_append replace_at_apply_edits)
qed

subsection \<open>Chains and the text from a later offset\<close>

lemma chain_mono: "chain q es \<Longrightarrow> p \<le> q \<Longrightarrow> chain p es"
  by (cases es) auto

lemma chain_starts: "chain pos es \<Longrightarrow> e \<in> set es \<Longrightarrow> pos \<le> fst e"
proof (induction es arbitrary: pos)
  case Nil
  then show ?case by simp
next
  case (Cons x es)
  obtain o1 l1 a1 where x: "x = (o1, l1, a1)" by (cases x)
  from Cons.prems x have c: "pos \<le> o1" "chain (max (o1 + l1) (Suc o1)) es" by auto
  show ?case
  proof (cases "e = x")
    case True
    with c x show ?thesis by simp
  next
    case False
    with Cons.prems have "e \<in> set es" by simp
    from Cons.IH [OF c(2) this] c show ?thesis by simp
  qed
qed

lemma one_pass_later_start:
  assumes "pos \<le> q" and "\<forall>e \<in> set es. q \<le> fst e"
  shows "one_pass code pos es = take (q - pos) (drop pos code) @ one_pass code q es"
proof (cases es)
  case Nil
  have "drop q code = drop (q - pos) (drop pos code)" using assms(1) by simp
  then show ?thesis using Nil by (simp del: drop_drop)
next
  case (Cons x xs)
  obtain o1 l1 a1 where x: "x = (o1, l1, a1)" by (cases x)
  with Cons assms have q: "q \<le> o1" by simp
  have "take (o1 - pos) (drop pos code)
        = take (q - pos) (drop pos code) @ take (o1 - q) (drop (q - pos) (drop pos code))"
    using take_add [of "q - pos" "o1 - q" "drop pos code"] q assms(1) by simp
  then show ?thesis using Cons x assms(1) by simp
qed


lemma chain_filter_none:
  assumes "chain pos es" and "\<And>o'. B o' \<Longrightarrow> o' < pos"
  shows "filter (\<lambda>e. B (fst e)) es = []"
proof -
  have "\<not> B (fst e)" if "e \<in> set es" for e
    using chain_starts [OF assms(1) that] assms(2) [of "fst e"] by auto
  then show ?thesis by (simp add: filter_empty_conv)
qed

lemma chain_filter_all:
  assumes "chain pos es" and "\<And>o'. pos \<le> o' \<Longrightarrow> B o'"
  shows "filter (\<lambda>e. B (fst e)) es = es"
proof -
  have "B (fst e)" if "e \<in> set es" for e
    using chain_starts [OF assms(1) that] assms(2) by auto
  then show ?thesis by (simp add: filter_id_conv)
qed

lemma growth_bound:
  assumes "chain pos es" and "pos \<le> i"
    and "\<And>o'. B o' \<Longrightarrow> o' \<le> i" and "\<And>o'. o' < i \<Longrightarrow> B o'"
    and "\<forall>(o1, l1, a1) \<in> set es. B o1 \<longrightarrow> o1 + l1 \<le> i"
  shows "0 \<le> int i - int pos + sum_list (map growth (filter (\<lambda>e. B (fst e)) es))"
  using assms(1,2,5)
proof (induction es arbitrary: pos)
  case Nil
  then show ?case by simp
next
  case (Cons x es)
  obtain o1 l1 a1 where x: "x = (o1, l1, a1)" by (cases x)
  from Cons.prems x have c: "pos \<le> o1" "chain (max (o1 + l1) (Suc o1)) es" by auto
  show ?case
  proof (cases "B o1")
    case True
    with Cons.prems(3) x have e: "o1 + l1 \<le> i" by simp
    have "chain (o1 + l1) es" using c(2) by (rule chain_mono) simp
    from Cons.IH [OF this e] Cons.prems(3)
    have "0 \<le> int i - int (o1 + l1) + sum_list (map growth (filter (\<lambda>e. B (fst e)) es))"
      by simp
    moreover have "growth x = int (length a1) - int l1" by (simp add: x growth_def)
    ultimately show ?thesis using True c(1) by (simp add: x)
  next
    case False
    with assms(4) [of o1] have "i \<le> o1" by (meson not_le)
    then have "\<And>o'. B o' \<Longrightarrow> o' < max (o1 + l1) (Suc o1)"
      using assms(3) by fastforce
    from chain_filter_none [OF c(2), of B, OF this] False Cons.prems(2)
    show ?thesis by (simp add: x)
  qed
qed

lemma one_pass_drop:
  assumes "chain pos es" and "within code es" and "pos \<le> i" and "i \<le> length code"
    and "\<And>o'. B o' \<Longrightarrow> o' \<le> i" and "\<And>o'. o' < i \<Longrightarrow> B o'"
    and "\<forall>(o1, l1, a1) \<in> set es. B o1 \<longrightarrow> o1 + l1 \<le> i"
  shows "drop (nat (int i - int pos + sum_list (map growth (filter (\<lambda>e. B (fst e)) es))))
           (one_pass code pos es)
         = one_pass code i (filter (\<lambda>e. \<not> B (fst e)) es)"
  using assms(1,2,3,7)
proof (induction es arbitrary: pos)
  case Nil
  have "nat (int i - int pos) + pos = i" using Nil.prems(3) by simp
  then show ?case by simp
next
  case (Cons x es)
  obtain o1 l1 a1 where x: "x = (o1, l1, a1)" by (cases x)
  from Cons.prems x have c: "pos \<le> o1" "chain (max (o1 + l1) (Suc o1)) es" by auto
  from Cons.prems(2) x have w: "o1 + l1 \<le> length code" "within code es"
    by (simp_all add: within_def)
  show ?case
  proof (cases "B o1")
    case True
    with Cons.prems(4) x have e: "o1 + l1 \<le> i" by simp
    have ch: "chain (o1 + l1) es" using c(2) by (rule chain_mono) simp
    have rest: "\<forall>(o1, l1, a1) \<in> set es. B o1 \<longrightarrow> o1 + l1 \<le> i"
      using Cons.prems(4) by simp
    let ?s = "sum_list (map growth (filter (\<lambda>e. B (fst e)) es))"
    have nn: "0 \<le> int i - int (o1 + l1) + ?s"
      by (rule growth_bound [OF ch e assms(5,6) rest])
    have gx: "growth x = int (length a1) - int l1" by (simp add: x growth_def)
    have idx: "nat (int i - int pos + sum_list (map growth (filter (\<lambda>e. B (fst e)) (x # es))))
          = (o1 - pos) + length a1 + nat (int i - int (o1 + l1) + ?s)"
      using True c(1) nn gx by (simp add: x)
    have len: "length (take (o1 - pos) (drop pos code)) = o1 - pos"
      using w(1) by simp
    have "drop ((o1 - pos) + length a1 + nat (int i - int (o1 + l1) + ?s)) (one_pass code pos (x # es))
          = drop (nat (int i - int (o1 + l1) + ?s)) (one_pass code (o1 + l1) es)"
      using len by (simp add: x)
    also have "\<dots> = one_pass code i (filter (\<lambda>e. \<not> B (fst e)) es)"
      by (rule Cons.IH [OF ch w(2) e rest])
    finally show ?thesis using True idx by (simp add: x)
  next
    case False
    with assms(6) [of o1] have io: "i \<le> o1" by (meson not_le)
    then have "\<And>o'. B o' \<Longrightarrow> o' < max (o1 + l1) (Suc o1)"
      using assms(5) by fastforce
    from chain_filter_none [OF c(2), of B, OF this]
    have none: "filter (\<lambda>e. B (fst e)) es = []" .
    then have all: "filter (\<lambda>e. \<not> B (fst e)) es = es"
      by (simp add: filter_empty_conv filter_id_conv)
    have "\<forall>e \<in> set (x # es). i \<le> fst e"
    proof
      fix e assume "e \<in> set (x # es)"
      then show "i \<le> fst e"
        using chain_starts [OF c(2), of e] io x by auto
    qed
    from one_pass_later_start [OF Cons.prems(3) this, of code]
    have "one_pass code pos (x # es) = take (i - pos) (drop pos code) @ one_pass code i (x # es)" .
    moreover have "length (take (i - pos) (drop pos code)) = i - pos"
      using assms(4) by simp
    ultimately have "drop (i - pos) (one_pass code pos (x # es)) = one_pass code i (x # es)"
      by (metis append_eq_conv_conj)
    moreover have "nat (int i - int pos + sum_list (map growth (filter (\<lambda>e. B (fst e)) (x # es))))
          = i - pos"
      using False none Cons.prems(3) by (simp add: x)
    moreover have "filter (\<lambda>e. \<not> B (fst e)) (x # es) = x # es"
      using False all by (simp add: x)
    ultimately show ?thesis by simp
  qed
qed


subsection \<open>One more edit\<close>

text \<open>
  An edit apart from all the edits made so far: \<^verbatim>\<open>ReplaceText\<close> places it where the
  one-pass text with the edit added has it, whichever edits came before.
\<close>

lemma apart_sym: "apart e e' \<Longrightarrow> apart e' e"
  by (cases e, cases e') auto

lemma within_insort:
  "within code (insort_key fst e es) \<longleftrightarrow> (case e of (o1, l1, a1) \<Rightarrow> o1 + l1 \<le> length code) \<and> within code es"
  by (auto simp: within_def list_all_iff set_insort_key)

lemma chain_insort:
  assumes "chain pos es" and "pos \<le> o1" and "\<forall>e \<in> set es. apart (o1, l1, a1) e"
  shows "chain pos (insort_key fst (o1, l1, a1) es)"
  using assms
proof (induction es arbitrary: pos)
  case Nil
  then show ?case by simp
next
  case (Cons x es)
  obtain o2 l2 a2 where x: "x = (o2, l2, a2)" by (cases x)
  from Cons.prems x have c: "pos \<le> o2" "chain (max (o2 + l2) (Suc o2)) es" by auto
  from Cons.prems(3) x
  consider "o1 < o2" "o1 + l1 \<le> o2" | "o2 < o1" "o2 + l2 \<le> o1" by auto
  then show ?case
  proof cases
    case 1
    then show ?thesis using Cons.prems(2) c by (simp add: x)
  next
    case 2
    have "chain (max (o2 + l2) (Suc o2)) (insort_key fst (o1, l1, a1) es)"
      using c(2) 2 Cons.prems(3) by (intro Cons.IH) auto
    then show ?thesis using 2 c(1) by (simp add: x)
  qed
qed

lemma one_pass_insort:
  assumes "chain pos es" and "within code es" and "pos \<le> o1" and "o1 + l1 \<le> length code"
    and "\<forall>e \<in> set es. apart (o1, l1, a1) e"
  shows "one_pass code pos (insort_key fst (o1, l1, a1) es)
         = take (nat (int o1 - int pos + sum_list (map growth (filter (\<lambda>e. fst e < o1) es))))
             (one_pass code pos es)
           @ a1
           @ drop (nat (int o1 - int pos + sum_list (map growth (filter (\<lambda>e. fst e < o1) es))) + l1)
               (one_pass code pos es)"
  using assms(1,2,3,5)
proof (induction es arbitrary: pos)
  case Nil
  have "nat (int o1 - int pos) = o1 - pos" by simp
  moreover have "o1 - pos + l1 + pos = o1 + l1" using Nil.prems(3) by simp
  ultimately show ?case by simp
next
  case (Cons x es)
  obtain o2 l2 a2 where x: "x = (o2, l2, a2)" by (cases x)
  from Cons.prems x have c: "pos \<le> o2" "chain (max (o2 + l2) (Suc o2)) es" by auto
  from Cons.prems(2) x have w: "o2 + l2 \<le> length code" "within code es"
    by (simp_all add: within_def)
  let ?S = "one_pass code pos (x # es)"
  from Cons.prems(4) x
  consider "o1 < o2" "o1 + l1 \<le> o2" | "o2 < o1" "o2 + l2 \<le> o1" by auto
  then show ?case
  proof cases
    case 1
    have "filter (\<lambda>e. fst e < o1) (x # es) = []"
      using chain_filter_none [OF Cons.prems(1), of "\<lambda>o'. o' < o1"] 1
        chain_starts [OF Cons.prems(1)]
      by (auto simp: filter_empty_conv x dest: chain_starts [OF c(2)])
    then have r: "nat (int o1 - int pos + sum_list (map growth (filter (\<lambda>e. fst e < o1) (x # es))))
               = o1 - pos"
      by simp
    have "\<forall>e \<in> set (x # es). o1 + l1 \<le> fst e"
      using 1 chain_starts [OF c(2)] by (fastforce simp: x)
    from one_pass_later_start [OF _ this, of pos code] Cons.prems(3)
    have S: "?S = take (o1 + l1 - pos) (drop pos code) @ one_pass code (o1 + l1) (x # es)"
      by simp
    have len: "length (take (o1 + l1 - pos) (drop pos code)) = o1 + l1 - pos"
      using assms(4) by simp
    have "take (o1 - pos) ?S = take (o1 - pos) (take (o1 + l1 - pos) (drop pos code))"
      unfolding S take_append len by simp
    then have t: "take (o1 - pos) ?S = take (o1 - pos) (drop pos code)"
      by (simp add: min_def)
    have "o1 - pos + l1 = o1 + l1 - pos" using Cons.prems(3) by simp
    then have d: "drop (o1 - pos + l1) ?S = one_pass code (o1 + l1) (x # es)"
      using S len by (metis append_eq_conv_conj)
    have "insort_key fst (o1, l1, a1) (x # es) = (o1, l1, a1) # x # es"
      using 1 by (simp add: x)
    then show ?thesis unfolding r t d by simp
  next
    case 2
    have ch: "chain (o2 + l2) es" using c(2) by (rule chain_mono) simp
    have ap: "\<forall>e \<in> set es. apart (o1, l1, a1) e" using Cons.prems(4) by simp
    let ?s = "sum_list (map growth (filter (\<lambda>e. fst e < o1) es))"
    let ?r' = "nat (int o1 - int (o2 + l2) + ?s)"
    let ?S' = "one_pass code (o2 + l2) es"
    have ends: "\<forall>(o', l', a') \<in> set es. o' < o1 \<longrightarrow> o' + l' \<le> o1"
      using ap by auto
    have nn: "0 \<le> int o1 - int (o2 + l2) + ?s"
      by (rule growth_bound [OF ch 2(2) _ _ ends]) auto
    have gx: "growth x = int (length a2) - int l2" by (simp add: x growth_def)
    have r: "nat (int o1 - int pos + sum_list (map growth (filter (\<lambda>e. fst e < o1) (x # es))))
               = (o2 - pos) + length a2 + ?r'"
      using 2 c(1) nn gx by (simp add: x)
    have len: "length (take (o2 - pos) (drop pos code)) = o2 - pos"
      using w(1) by simp
    have S: "?S = (take (o2 - pos) (drop pos code) @ a2) @ ?S'"
      by (simp add: x)
    have len2: "length (take (o2 - pos) (drop pos code) @ a2) = (o2 - pos) + length a2"
      using len by simp
    have t: "take ((o2 - pos) + length a2 + ?r') ?S
             = (take (o2 - pos) (drop pos code) @ a2) @ take ?r' ?S'"
      unfolding S using len2 by (simp del: append_assoc length_take)
    have d: "drop ((o2 - pos) + length a2 + ?r' + l1) ?S = drop (?r' + l1) ?S'"
      unfolding S using len2 by (simp del: append_assoc length_take add: add.assoc)
    have ins: "insort_key fst (o1, l1, a1) (x # es) = x # insort_key fst (o1, l1, a1) es"
      using 2 by (simp add: x)
    have "one_pass code (o2 + l2) (insort_key fst (o1, l1, a1) es)
          = take ?r' ?S' @ a1 @ drop (?r' + l1) ?S'"
      by (rule Cons.IH [OF ch w(2) 2(2) ap])
    then show ?thesis unfolding r t d ins by (simp add: x)
  qed
qed


lemma sum_list_filter_mset:
  fixes f :: "'a \<Rightarrow> int"
  assumes "mset xs = mset ys"
  shows "sum_list (map f (filter P xs)) = sum_list (map f (filter P ys))"
proof -
  have "sum_list (map f (filter P zs)) = sum_mset (image_mset f (filter_mset P (mset zs)))" for zs
    by (metis mset_filter mset_map sum_mset_sum_list)
  then show ?thesis using assms by simp
qed

lemma Deltas_ReplaceText:
  "sum_list (map snd (filter (\<lambda>(offs, d). offs \<le> x) (Deltas (RewriteBuffer_ReplaceText o1 l1 a1 rb))))
   = sum_list (map snd (filter (\<lambda>(offs, d). offs \<le> x) (Deltas rb)))
     + (if o1 \<le> x then growth (o1, l1, a1) else 0)"
  by (simp add: RewriteBuffer_ReplaceText_def growth_def Let_def)

lemma apply_edits_one_pass:
  assumes "chain 0 ss" and "within code ss" and "within code es" and "nonoverlapping es"
    and "\<forall>e \<in> set es. \<forall>e' \<in> set ss. apart e e'"
    and "Buffer rb = one_pass code 0 ss"
    and "\<forall>x. sum_list (map snd (filter (\<lambda>(offs, d). offs \<le> x) (Deltas rb)))
             = sum_list (map growth (filter (\<lambda>e. fst e \<le> x) ss))"
  shows "\<exists>ss'. mset ss' = mset ss + mset es \<and> chain 0 ss' \<and> within code ss'
            \<and> Buffer (apply_edits es rb) = one_pass code 0 ss'"
  using assms
proof (induction es arbitrary: ss rb)
  case Nil
  then show ?case by auto
next
  case (Cons e es)
  obtain o1 l1 a1 where e: "e = (o1, l1, a1)" by (cases e)
  let ?rb = "RewriteBuffer_ReplaceText o1 l1 a1 rb"
  let ?ss = "insort_key fst e ss"
  from Cons.prems(3) e have w: "o1 + l1 \<le> length code" "within code es"
    by (simp_all add: within_def)
  from Cons.prems(4) have no: "list_all (apart e) es" "nonoverlapping es" by simp_all
  from Cons.prems(5) have ap: "\<forall>e' \<in> set ss. apart (o1, l1, a1) e'" by (simp add: e)
  have ne: "fst e' \<noteq> o1" if "e' \<in> set ss" for e'
    using ap that by (cases e') auto
  then have "filter (\<lambda>e. fst e \<le> o1) ss = filter (\<lambda>e. fst e < o1) ss"
    by (intro filter_cong) (auto simp: le_less)
  with Cons.prems(7)
  have real: "getMappedOffset rb o1
      = nat (int o1 - int 0 + sum_list (map growth (filter (\<lambda>e. fst e < o1) ss)))"
    by (simp add: getMappedOffset_def)
  have ch: "chain 0 ?ss"
    unfolding e by (rule chain_insort [OF Cons.prems(1) _ ap]) simp
  have wi: "within code ?ss"
    using Cons.prems(2) w(1) by (simp add: within_insort e)
  have buf: "Buffer ?rb = one_pass code 0 ?ss"
    unfolding e
    by (subst one_pass_insort [OF Cons.prems(1,2) _ w(1) ap])
      (simp_all add: RewriteBuffer_ReplaceText_def Let_def real Cons.prems(6))
  have del: "\<forall>x. sum_list (map snd (filter (\<lambda>(offs, d). offs \<le> x) (Deltas ?rb)))
             = sum_list (map growth (filter (\<lambda>e. fst e \<le> x) ?ss))"
  proof
    fix x
    have "sum_list (map growth (filter (\<lambda>e. fst e \<le> x) ?ss))
          = sum_list (map growth (filter (\<lambda>e. fst e \<le> x) (e # ss)))"
      by (rule sum_list_filter_mset) simp
    then show "sum_list (map snd (filter (\<lambda>(offs, d). offs \<le> x) (Deltas ?rb)))
             = sum_list (map growth (filter (\<lambda>e. fst e \<le> x) ?ss))"
      using Cons.prems(7) by (simp add: Deltas_ReplaceText e)
  qed
  have ap': "\<forall>e'' \<in> set es. \<forall>e' \<in> set ?ss. apart e'' e'"
    using Cons.prems(5) no(1) by (auto simp: set_insort_key list_all_iff intro: apart_sym)
  from Cons.IH [OF ch wi w(2) no(2) ap' buf del]
  obtain ss' where "mset ss' = mset ?ss + mset es" "chain 0 ss'" "within code ss'"
    "Buffer (apply_edits es ?rb) = one_pass code 0 ss'" by blast
  then show ?case by (intro exI [of _ ss']) (simp add: e)
qed

lemma ReplaceReferences_one_pass:
  assumes "nonoverlapping (recorded_spans entries v)" and "within code (recorded_spans entries v)"
  shows "\<exists>ss. mset ss = mset (recorded_spans entries v) \<and> chain 0 ss \<and> within code ss
            \<and> Buffer (ReplaceReferences entries v (initial_buffer code)) = one_pass code 0 ss"
proof -
  have "\<exists>ss'. mset ss' = mset [] + mset (recorded_spans entries v) \<and> chain 0 ss' \<and> within code ss'
          \<and> Buffer (apply_edits (recorded_spans entries v) (initial_buffer code)) = one_pass code 0 ss'"
    using assms by (intro apply_edits_one_pass) (simp_all add: within_def initial_buffer_def)
  then show ?thesis by (simp add: ReplaceReferences_apply_edits)
qed


subsection \<open>The frame property of the one-pass text\<close>

lemma nonoverlapping_apart:
  "nonoverlapping es \<Longrightarrow> e \<in> set es \<Longrightarrow> e' \<in> set es \<Longrightarrow> e \<noteq> e' \<Longrightarrow> apart e e'"
  by (induction es) (auto simp: list_all_iff intro: apart_sym)

lemma nonoverlapping_distinct: "nonoverlapping es \<Longrightarrow> distinct es"
proof (induction es)
  case Nil
  then show ?case by simp
next
  case (Cons e es)
  have "\<not> apart e e" by (cases e) auto
  with Cons show ?case by (auto simp: list_all_iff)
qed

lemma chain_split:
  "chain pos (xs @ e # ys) \<Longrightarrow>
     (\<forall>x \<in> set xs. fst x < fst e) \<and> (\<forall>y \<in> set ys. fst e < fst y)"
proof (induction xs arbitrary: pos)
  case Nil
  obtain o1 l1 a1 where e: "e = (o1, l1, a1)" by (cases e)
  with Nil have "chain (max (o1 + l1) (Suc o1)) ys" by simp
  from chain_starts [OF this] show ?case by (fastforce simp: e)
next
  case (Cons x xs)
  obtain o2 l2 a2 where x: "x = (o2, l2, a2)" by (cases x)
  with Cons.prems have c: "chain (max (o2 + l2) (Suc o2)) (xs @ e # ys)" by simp
  from chain_starts [OF c, of e] have "o2 < fst e" by simp
  with Cons.IH [OF c] show ?case by (simp add: x)
qed

lemma span_holds:
  assumes "chain 0 ss" and "within code ss" and "(o1, l1, a1) \<in> set ss"
    and "\<forall>(o', l', a') \<in> set ss. o' < o1 \<longrightarrow> o' + l' \<le> o1"
  shows "take (length a1) (drop (new_start ss o1) (one_pass code 0 ss)) = a1"
proof -
  from assms(3) obtain xs ys where ss: "ss = xs @ (o1, l1, a1) # ys"
    by (auto dest: split_list)
  from chain_split [OF assms(1) [unfolded ss]]
  have "filter (\<lambda>e. \<not> fst e < o1) ss = (o1, l1, a1) # ys"
    by (auto simp: ss filter_empty_conv filter_id_conv)
  moreover have "o1 \<le> length code" using assms(2,3) by (auto simp: within_def list_all_iff)
  ultimately have "drop (nat (int o1 - int 0 + sum_list (map growth (filter (\<lambda>e. fst e < o1) ss))))
           (one_pass code 0 ss) = one_pass code o1 ((o1, l1, a1) # ys)"
    using one_pass_drop [OF assms(1,2), of o1 "\<lambda>o'. o' < o1"] assms(4) by simp
  then show ?thesis by (simp add: new_start_def)
qed

lemma one_pass_hd:
  assumes "i < length code" and "\<forall>e \<in> set es. i < fst e"
  shows "one_pass code i es \<noteq> [] \<and> hd (one_pass code i es) = code ! i"
proof (cases es)
  case Nil
  then show ?thesis using assms(1) by (simp add: hd_drop_conv_nth)
next
  case (Cons x xs)
  obtain o1 l1 a1 where x: "x = (o1, l1, a1)" by (cases x)
  with Cons assms(2) have "i < o1" by simp
  then have "take (o1 - i) (drop i code) \<noteq> []" using assms(1) by simp
  moreover from this have "hd (take (o1 - i) (drop i code)) = code ! i"
    using assms(1) by (simp add: hd_drop_conv_nth)
  ultimately show ?thesis by (simp add: Cons x)
qed

lemma outside_holds:
  assumes "chain 0 ss" and "within code ss" and "i < length code" and "\<not> covered ss i"
  shows "new_index ss i < length (one_pass code 0 ss)
         \<and> one_pass code 0 ss ! new_index ss i = code ! i"
proof -
  have ends: "\<forall>(o', l', a') \<in> set ss. o' \<le> i \<longrightarrow> o' + l' \<le> i"
    using assms(4) by (fastforce simp: covered_def list_ex_iff)
  have "drop (nat (int i - int 0 + sum_list (map growth (filter (\<lambda>e. fst e \<le> i) ss))))
           (one_pass code 0 ss) = one_pass code i (filter (\<lambda>e. \<not> fst e \<le> i) ss)"
    using one_pass_drop [OF assms(1,2), of i "\<lambda>o'. o' \<le> i"] assms(3) ends by simp
  then have d: "drop (new_index ss i) (one_pass code 0 ss)
                = one_pass code i (filter (\<lambda>e. \<not> fst e \<le> i) ss)"
    by (simp add: new_index_def)
  have "one_pass code i (filter (\<lambda>e. \<not> fst e \<le> i) ss) \<noteq> []
        \<and> hd (one_pass code i (filter (\<lambda>e. \<not> fst e \<le> i) ss)) = code ! i"
    by (rule one_pass_hd [OF assms(3)]) auto
  with d have ne: "drop (new_index ss i) (one_pass code 0 ss) \<noteq> []"
    and h: "hd (drop (new_index ss i) (one_pass code 0 ss)) = code ! i" by simp_all
  from ne have "new_index ss i < length (one_pass code 0 ss)" by simp
  with h show ?thesis by (simp add: hd_drop_conv_nth)
qed

lemma new_start_mset: "mset ss = mset es \<Longrightarrow> new_start ss = new_start es"
  by (rule ext) (simp add: new_start_def sum_list_filter_mset [of ss es])

lemma new_index_mset: "mset ss = mset es \<Longrightarrow> new_index ss = new_index es"
  by (rule ext) (simp add: new_index_def sum_list_filter_mset [of ss es])

lemma covered_mset: "mset ss = mset es \<Longrightarrow> covered ss = covered es"
  by (rule ext) (auto simp: covered_def list_ex_iff dest: mset_eq_setD)

lemma frame_property:
  assumes "nonoverlapping es" and "within code es"
    and "mset ss = mset es" and "chain 0 ss" and "within code ss"
  shows "spans_hold_alias es (one_pass code 0 ss) \<and> outside_unchanged code es (one_pass code 0 ss)"
proof -
  have set: "set ss = set es" using assms(3) by (rule mset_eq_setD)
  have "take (length a1) (drop (new_start es o1) (one_pass code 0 ss)) = a1"
    if "(o1, l1, a1) \<in> set es" for o1 l1 a1
  proof -
    have "\<forall>(o', l', a') \<in> set ss. o' < o1 \<longrightarrow> o' + l' \<le> o1"
    proof (clarify)
      fix o' l' a' assume m: "(o', l', a') \<in> set ss" and lt: "o' < o1"
      then have "apart (o', l', a') (o1, l1, a1)"
        using nonoverlapping_apart [OF assms(1), of "(o', l', a')" "(o1, l1, a1)"] that set
        by auto
      with lt show "o' + l' \<le> o1" by simp
    qed
    from span_holds [OF assms(4,5) _ this, of l1 a1] that set
    show ?thesis by (simp add: new_start_mset [OF assms(3)])
  qed
  then have a: "spans_hold_alias es (one_pass code 0 ss)"
    by (auto simp: spans_hold_alias_def list_all_iff)
  have "covered es i \<or> (new_index es i < length (one_pass code 0 ss)
          \<and> one_pass code 0 ss ! new_index es i = code ! i)"
    if "i < length code" for i
    using outside_holds [OF assms(4,5) that]
    by (auto simp: new_index_mset [OF assms(3)] covered_mset [OF assms(3)])
  then have b: "outside_unchanged code es (one_pass code 0 ss)"
    by (simp add: outside_unchanged_def list_all_iff)
  from a b show ?thesis ..
qed


lemma mem_map_filter: "x \<in> set xs \<Longrightarrow> f x = Some y \<Longrightarrow> y \<in> set (List.map_filter f xs)"
  by (induction xs) (auto simp: map_filter_simps split: option.splits)

lemma recorded_spans_mem:
  assumes "(key, al) \<in> set entries" and "MainFile offs \<in> set (nameLocations v key)"
  shows "(offs, length key, al) \<in> set (recorded_spans entries v)"
proof -
  have "(offs, length key, al) \<in> set (List.map_filter (span_of key al) (nameLocations v key))"
    by (rule mem_map_filter [OF assms(2)]) simp
  with assms(1) show ?thesis
    unfolding recorded_spans_def set_concat set_map by blast
qed

subsection \<open>The run on the first example\<close>

lemma alias_rand_count_8: "generateRandomAlias rand_count 8 = (''I9ABCDEF'', 16)"
  by (simp add: generateRandomAlias_eq rand_count_def letters_def alphanum_def upt_conv_Cons
           del: upt_Suc)

lemma toString_5: "APInt_toString10 \<lparr>BitWidth = 32, VAL = 5\<rparr> True = ''5''"
  by (simp add: APInt_toString10_def isNegative_def digits_loop.simps Digits_def)

lemma example_aliases:
  "aliases (TraverseDecl rand_count example_nodes initial) = [''x'' \<mapsto> ''A1234567'', ''5'' \<mapsto> ''I9ABCDEF'']"
  by (simp add: example_nodes_def VisitVarDecl_def VisitIntegerLiteral_def assign_alias_def initial_def
      push_back_def alias_rand_count_0 alias_rand_count_8 toString_5 Let_def)

lemma example_locations:
  "nameLocations (TraverseDecl rand_count example_nodes initial)
   = (\<lambda>k. [])(''x'' := [MainFile 4], ''5'' := [MainFile 8])"
  by (simp add: example_nodes_def VisitVarDecl_def VisitIntegerLiteral_def assign_alias_def initial_def
      push_back_def alias_rand_count_0 alias_rand_count_8 toString_5 Let_def)

lemma example_enumerates:
  "enumerates [(''x'', ''A1234567''), (''5'', ''I9ABCDEF'')] (TraverseDecl rand_count example_nodes initial)"
  by (auto simp: enumerates_def example_aliases)

lemma example_spans:
  "recorded_spans [(''x'', ''A1234567''), (''5'', ''I9ABCDEF'')] (TraverseDecl rand_count example_nodes initial)
   = [(4, 1, ''A1234567''), (8, 1, ''I9ABCDEF'')]"
  by (simp add: recorded_spans_def example_locations map_filter_simps)

lemma example_rewritten:
  "HandleTranslationUnit rand_count [(''x'', ''A1234567''), (''5'', ''I9ABCDEF'')] example_code example_nodes
   = (''#define A1234567 x'' @ [CHR 0x0A] @ ''#define I9ABCDEF 5'' @ [CHR 0x0A], ''int A1234567 = I9ABCDEF;'')"
  by (simp add: HandleTranslationUnit_def example_locations InsertAliases_def define_line_def
      example_code_def initial_buffer_def RewriteBuffer_ReplaceText_def getMappedOffset_def Let_def)


subsection \<open>The frame property of a run\<close>

lemma enumerates_mem: "enumerates entries v \<Longrightarrow> aliases v key = Some al \<Longrightarrow> (key, al) \<in> set entries"
  by (metis enumerates_def map_of_SomeD)

lemma HandleTranslationUnit_buffer:
  "snd (HandleTranslationUnit rand entries code ns)
   = Buffer (ReplaceReferences entries (TraverseDecl rand ns initial) (initial_buffer code))"
  by (simp add: HandleTranslationUnit_def Let_def)

text \<open>
  C1, as the code has it. When the spans recorded in the main file (each location's offset
  with the length of its key) are pairwise apart and lie within the original buffer, then
  for every span recorded under a key the rewritten buffer holds the key's alias at the
  place the span has moved to, and every original byte outside the spans is in the
  rewritten buffer, unchanged, at the place it has moved to, whatever the order in which
  the alias table is iterated.
\<close>

theorem C1_frame_when_apart:
  assumes "enumerates entries (TraverseDecl rand ns initial)"
    and "nonoverlapping (recorded_spans entries (TraverseDecl rand ns initial))"
    and "within code (recorded_spans entries (TraverseDecl rand ns initial))"
  shows "(\<forall>key al offs.
            aliases (TraverseDecl rand ns initial) key = Some al
            \<and> MainFile offs \<in> set (nameLocations (TraverseDecl rand ns initial) key)
          \<longrightarrow> take (length al)
                (drop (new_start (recorded_spans entries (TraverseDecl rand ns initial)) offs)
                   (snd (HandleTranslationUnit rand entries code ns))) = al)
     \<and> outside_unchanged code (recorded_spans entries (TraverseDecl rand ns initial))
          (snd (HandleTranslationUnit rand entries code ns))"
proof -
  let ?v = "TraverseDecl rand ns initial"
  let ?es = "recorded_spans entries ?v"
  let ?R = "snd (HandleTranslationUnit rand entries code ns)"
  from ReplaceReferences_one_pass [OF assms(2,3)]
  obtain ss where ss: "mset ss = mset ?es" "chain 0 ss" "within code ss" and R: "?R = one_pass code 0 ss"
    by (auto simp: HandleTranslationUnit_buffer)
  from frame_property [OF assms(2,3) ss]
  have hold: "spans_hold_alias ?es ?R" and out: "outside_unchanged code ?es ?R"
    by (simp_all add: R)
  have "take (length al) (drop (new_start ?es offs) ?R) = al"
    if "aliases ?v key = Some al" and "MainFile offs \<in> set (nameLocations ?v key)" for key al offs
  proof -
    have "(offs, length key, al) \<in> set ?es"
      using enumerates_mem [OF assms(1) that(1)] that(2) by (rule recorded_spans_mem)
    with hold show ?thesis by (auto simp: spans_hold_alias_def list_all_iff)
  qed
  with out show ?thesis by blast
qed

theorem C1_frame_when_apart_witness:
  "enumerates [(''x'', ''A1234567''), (''5'', ''I9ABCDEF'')] (TraverseDecl rand_count example_nodes initial)
   \<and> nonoverlapping [(4, 1, ''A1234567''), (8, 1, ''I9ABCDEF'')]
   \<and> within example_code [(4, 1, ''A1234567''), (8, 1, ''I9ABCDEF'')]
   \<and> snd (HandleTranslationUnit rand_count [(''x'', ''A1234567''), (''5'', ''I9ABCDEF'')] example_code example_nodes)
       = ''int A1234567 = I9ABCDEF;''
   \<and> new_start [(4, 1, ''A1234567''), (8, 1, ''I9ABCDEF'')] 8 = 15
   \<and> take 8 (drop 15 ''int A1234567 = I9ABCDEF;'') = ''I9ABCDEF''
   \<and> outside_unchanged example_code [(4, 1, ''A1234567''), (8, 1, ''I9ABCDEF'')] ''int A1234567 = I9ABCDEF;''"
proof -
  let ?E = "[(''x'', ''A1234567''), (''5'', ''I9ABCDEF'')]"
  let ?v = "TraverseDecl rand_count example_nodes initial"
  have no: "nonoverlapping (recorded_spans ?E ?v)"
    by (simp add: example_spans)
  have wi: "within example_code (recorded_spans ?E ?v)"
    by (simp add: example_spans within_def example_code_def)
  have ns: "new_start [(4, 1, ''A1234567''), (8, 1, ''I9ABCDEF'')] 8 = 15"
    by (simp add: new_start_def growth_def)
  have al: "aliases ?v ''5'' = Some ''I9ABCDEF''" by (simp add: example_aliases)
  have lo: "MainFile 8 \<in> set (nameLocations ?v ''5'')" by (simp add: example_locations)
  from C1_frame_when_apart [OF example_enumerates no wi] al lo
  have "take (length ''I9ABCDEF'')
          (drop (new_start (recorded_spans ?E ?v) 8)
             (snd (HandleTranslationUnit rand_count ?E example_code example_nodes))) = ''I9ABCDEF''"
    and "outside_unchanged example_code (recorded_spans ?E ?v)
          (snd (HandleTranslationUnit rand_count ?E example_code example_nodes))"
    by blast+
  then show ?thesis
    using example_enumerates no wi ns by (simp add: example_spans example_rewritten)
qed


lemma toString_sign_bit_64:
  "APInt_toString10 \<lparr>BitWidth = 64, VAL = 10000000000000000000\<rparr> True = ''-8446744073709551616''"
  by (simp add: APInt_toString10_def isNegative_def digits_loop.simps Digits_def)

lemma overlap_aliases:
  "aliases (TraverseDecl rand_count overlap_nodes initial)
   = [''x'' \<mapsto> ''A1234567'', ''-8446744073709551616'' \<mapsto> ''I9ABCDEF'']"
  by (simp add: overlap_nodes_def VisitVarDecl_def VisitIntegerLiteral_def VisitDeclRefExpr_def
      isOperator_def assign_alias_def initial_def push_back_def alias_rand_count_0
      alias_rand_count_8 toString_sign_bit_64 Let_def)

lemma overlap_locations:
  "nameLocations (TraverseDecl rand_count overlap_nodes initial)
   = (\<lambda>k. [])(''x'' := [MainFile 5, MainFile 26], ''-8446744073709551616'' := [MainFile 7])"
  by (simp add: overlap_nodes_def VisitVarDecl_def VisitIntegerLiteral_def VisitDeclRefExpr_def
      isOperator_def assign_alias_def initial_def push_back_def alias_rand_count_0
      alias_rand_count_8 toString_sign_bit_64 Let_def fun_upd_twist)

lemma overlap_rewritten_1:
  "snd (HandleTranslationUnit rand_count
          [(''x'', ''A1234567''), (''-8446744073709551616'', ''I9ABCDEF'')] overlap_code overlap_nodes)
   = ''long A1234567=I9ABCDEF1234567;''"
  by (simp add: HandleTranslationUnit_def overlap_locations overlap_code_def initial_buffer_def
      RewriteBuffer_ReplaceText_def getMappedOffset_def Let_def)

lemma overlap_rewritten_2:
  "snd (HandleTranslationUnit rand_count
          [(''-8446744073709551616'', ''I9ABCDEF''), (''x'', ''A1234567'')] overlap_code overlap_nodes)
   = ''long A1234567=I9ABCDEA1234567;''"
  by (simp add: HandleTranslationUnit_def overlap_locations overlap_code_def initial_buffer_def
      RewriteBuffer_ReplaceText_def getMappedOffset_def Let_def)

lemma overlap_spans_1:
  "recorded_spans [(''x'', ''A1234567''), (''-8446744073709551616'', ''I9ABCDEF'')]
     (TraverseDecl rand_count overlap_nodes initial)
   = [(5, 1, ''A1234567''), (26, 1, ''A1234567''), (7, 20, ''I9ABCDEF'')]"
  by (simp add: recorded_spans_def overlap_locations map_filter_simps)

lemma overlap_spans_2:
  "recorded_spans [(''-8446744073709551616'', ''I9ABCDEF''), (''x'', ''A1234567'')]
     (TraverseDecl rand_count overlap_nodes initial)
   = [(7, 20, ''I9ABCDEF''), (5, 1, ''A1234567''), (26, 1, ''A1234567'')]"
  by (simp add: recorded_spans_def overlap_locations map_filter_simps)

text \<open>
  C1 as the spec words it fails. In \<^verbatim>\<open>long x=0x8AC7230489E80000+x;\<close> the literal's key
  has 20 characters, two more than the literal, so its span reaches over the reference to
  \<open>x\<close>. Whichever of the two keys is rewritten first, one recorded span does not hold
  its alias afterwards: with \<open>x\<close> first, the alias of \<open>x\<close> stands at its declaration
  only and nowhere after it; with the literal first, the literal's alias stands nowhere
  in the rewritten buffer.
\<close>

theorem C1_overlap_counterexample:
  "enumerates [(''x'', ''A1234567''), (''-8446744073709551616'', ''I9ABCDEF'')]
     (TraverseDecl rand_count overlap_nodes initial)
   \<and> enumerates [(''-8446744073709551616'', ''I9ABCDEF''), (''x'', ''A1234567'')]
     (TraverseDecl rand_count overlap_nodes initial)
   \<and> snd (HandleTranslationUnit rand_count
          [(''x'', ''A1234567''), (''-8446744073709551616'', ''I9ABCDEF'')] overlap_code overlap_nodes)
       = ''long A1234567=I9ABCDEF1234567;''
   \<and> snd (HandleTranslationUnit rand_count
          [(''-8446744073709551616'', ''I9ABCDEF''), (''x'', ''A1234567'')] overlap_code overlap_nodes)
       = ''long A1234567=I9ABCDEA1234567;''
   \<and> \<not> spans_hold_alias
        (recorded_spans [(''x'', ''A1234567''), (''-8446744073709551616'', ''I9ABCDEF'')]
           (TraverseDecl rand_count overlap_nodes initial))
        (snd (HandleTranslationUnit rand_count
          [(''x'', ''A1234567''), (''-8446744073709551616'', ''I9ABCDEF'')] overlap_code overlap_nodes))
   \<and> \<not> spans_hold_alias
        (recorded_spans [(''-8446744073709551616'', ''I9ABCDEF''), (''x'', ''A1234567'')]
           (TraverseDecl rand_count overlap_nodes initial))
        (snd (HandleTranslationUnit rand_count
          [(''-8446744073709551616'', ''I9ABCDEF''), (''x'', ''A1234567'')] overlap_code overlap_nodes))
   \<and> \<not> sublist ''A1234567''
        (drop 6 (snd (HandleTranslationUnit rand_count
          [(''x'', ''A1234567''), (''-8446744073709551616'', ''I9ABCDEF'')] overlap_code overlap_nodes)))
   \<and> \<not> sublist ''I9ABCDEF''
        (snd (HandleTranslationUnit rand_count
          [(''-8446744073709551616'', ''I9ABCDEF''), (''x'', ''A1234567'')] overlap_code overlap_nodes))"
proof -
  have e1: "enumerates [(''x'', ''A1234567''), (''-8446744073709551616'', ''I9ABCDEF'')]
     (TraverseDecl rand_count overlap_nodes initial)"
    by (auto simp: enumerates_def overlap_aliases)
  have e2: "enumerates [(''-8446744073709551616'', ''I9ABCDEF''), (''x'', ''A1234567'')]
     (TraverseDecl rand_count overlap_nodes initial)"
    by (auto simp: enumerates_def overlap_aliases)
  have n1: "\<not> spans_hold_alias [(5, 1, ''A1234567''), (26, 1, ''A1234567''), (7, 20, ''I9ABCDEF'')]
               ''long A1234567=I9ABCDEF1234567;''"
    by (simp add: spans_hold_alias_def new_start_def growth_def)
  have n2: "\<not> spans_hold_alias [(7, 20, ''I9ABCDEF''), (5, 1, ''A1234567''), (26, 1, ''A1234567'')]
               ''long A1234567=I9ABCDEA1234567;''"
    by (simp add: spans_hold_alias_def new_start_def growth_def)
  have s1: "\<not> sublist ''A1234567'' (drop 6 ''long A1234567=I9ABCDEF1234567;'')"
    by (simp add: sublist_Cons_right)
  have s2: "\<not> sublist ''I9ABCDEF'' ''long A1234567=I9ABCDEA1234567;''"
    by (simp add: sublist_Cons_right)
  show ?thesis
    using e1 e2 n1 n2 s1 s2
    by (simp only: overlap_rewritten_1 overlap_rewritten_2 overlap_spans_1 overlap_spans_2 simp_thms)
qed


section \<open>The extent of a replacement\<close>

lemma map_filter_mem: "y \<in> set (List.map_filter f xs) \<Longrightarrow> \<exists>x \<in> set xs. f x = Some y"
  by (induction xs) (auto simp: map_filter_simps split: option.splits)

lemma recorded_spans_lengths:
  assumes "(offs, len, al) \<in> set (recorded_spans entries v)"
  shows "\<exists>key. (key, al) \<in> set entries \<and> len = length key \<and> MainFile offs \<in> set (nameLocations v key)"
proof -
  from assms obtain key al' where m: "(key, al') \<in> set entries"
    and e: "(offs, len, al) \<in> set (List.map_filter (span_of key al') (nameLocations v key))"
    unfolding recorded_spans_def set_concat set_map by auto
  from map_filter_mem [OF e]
  obtain loc where "loc \<in> set (nameLocations v key)" "span_of key al' loc = Some (offs, len, al)"
    by blast
  note loc = this
  show ?thesis
  proof (cases loc)
    case (MainFile offs')
    with loc m show ?thesis by auto
  next
    case (OtherFile fid offs')
    with loc show ?thesis by simp
  qed
qed

lemma chain_tail:
  "chain pos (xs @ (o1, l1, a1) # ys) \<Longrightarrow> chain (max (o1 + l1) (Suc o1)) ys"
proof (induction xs arbitrary: pos)
  case Nil
  then show ?case by simp
next
  case (Cons x xs)
  obtain o2 l2 a2 where x: "x = (o2, l2, a2)" by (cases x)
  with Cons.prems have "chain (max (o2 + l2) (Suc o2)) (xs @ (o1, l1, a1) # ys)" by simp
  then show ?case by (rule Cons.IH)
qed

lemma span_place:
  assumes "chain 0 ss" and "within code ss" and "(o1, l1, a1) \<in> set ss"
    and "\<forall>(o', l', a') \<in> set ss. o' < o1 \<longrightarrow> o' + l' \<le> o1"
  shows "\<exists>ys. set ys \<subseteq> set ss \<and> (\<forall>e \<in> set ys. o1 + l1 \<le> fst e)
           \<and> drop (new_start ss o1) (one_pass code 0 ss) = a1 @ one_pass code (o1 + l1) ys"
proof -
  from assms(3) obtain xs ys where ss: "ss = xs @ (o1, l1, a1) # ys"
    by (auto dest: split_list)
  from chain_split [OF assms(1) [unfolded ss]]
  have "filter (\<lambda>e. \<not> fst e < o1) ss = (o1, l1, a1) # ys"
    by (auto simp: ss filter_empty_conv filter_id_conv)
  moreover have "o1 \<le> length code" using assms(2,3) by (auto simp: within_def list_all_iff)
  ultimately have "drop (nat (int o1 - int 0 + sum_list (map growth (filter (\<lambda>e. fst e < o1) ss))))
           (one_pass code 0 ss) = one_pass code o1 ((o1, l1, a1) # ys)"
    using one_pass_drop [OF assms(1,2), of o1 "\<lambda>o'. o' < o1"] assms(4) by simp
  then have d: "drop (new_start ss o1) (one_pass code 0 ss) = a1 @ one_pass code (o1 + l1) ys"
    by (simp add: new_start_def)
  have "chain (max (o1 + l1) (Suc o1)) ys"
    using assms(1) unfolding ss by (rule chain_tail)
  from chain_starts [OF this] have "\<forall>e \<in> set ys. o1 + l1 \<le> fst e" by fastforce
  moreover have "set ys \<subseteq> set ss" by (auto simp: ss)
  ultimately show ?thesis using d by blast
qed

lemma length_one_pass:
  assumes "chain pos ss" and "within code ss" and "pos \<le> length code"
  shows "int (length (one_pass code pos ss)) = int (length code) - int pos + sum_list (map growth ss)"
  using assms
proof (induction ss arbitrary: pos)
  case Nil
  then show ?case by simp
next
  case (Cons x ss)
  obtain o1 l1 a1 where x: "x = (o1, l1, a1)" by (cases x)
  from Cons.prems(1) x have c: "pos \<le> o1" "chain (max (o1 + l1) (Suc o1)) ss" by auto
  from Cons.prems(2) x have w: "o1 + l1 \<le> length code" "within code ss"
    by (simp_all add: within_def)
  have ch: "chain (o1 + l1) ss" using c(2) by (rule chain_mono) simp
  have gx: "growth x = int (length a1) - int l1" by (simp add: x growth_def)
  have "length (take (o1 - pos) (drop pos code)) = o1 - pos" using w(1) by simp
  with Cons.IH [OF ch w(2) w(1)] c(1) w(1) gx show ?case by (simp add: x)
qed

lemma sum_list_growth_mset: "mset ss = mset es \<Longrightarrow> sum_list (map growth ss) = sum_list (map growth es)"
  using sum_list_filter_mset [of ss es growth "\<lambda>e. True"] by simp

text \<open>
  C9, as the code has it. When the recorded spans are pairwise apart and lie within the
  buffer, the text replaced for every recorded occurrence is exactly the characters of the
  original buffer from its location on, as many as the key has characters: the alias
  stands at the place the span has moved to; the original characters that follow the span,
  up to the next recorded span, stand right after the alias; every original byte outside
  the spans is kept; and the rewritten buffer is longer than the original by the lengths of
  the aliases less the lengths of the keys. For a reference named "operator" followed by
  \<open>s\<close> the key is \<open>s\<close>, so the characters of the name after the first \<open>length s\<close> are
  among those kept.
\<close>

theorem C9_key_length_extent_when_apart:
  assumes "enumerates entries (TraverseDecl rand ns initial)"
    and "nonoverlapping (recorded_spans entries (TraverseDecl rand ns initial))"
    and "within code (recorded_spans entries (TraverseDecl rand ns initial))"
  shows "(\<forall>key al offs m.
            aliases (TraverseDecl rand ns initial) key = Some al
            \<and> MainFile offs \<in> set (nameLocations (TraverseDecl rand ns initial) key)
            \<and> offs + length key + m \<le> length code
            \<and> no_start_in (recorded_spans entries (TraverseDecl rand ns initial)) (offs + length key) m
          \<longrightarrow> (offs, length key, al) \<in> set (recorded_spans entries (TraverseDecl rand ns initial))
              \<and> take (length al)
                  (drop (new_start (recorded_spans entries (TraverseDecl rand ns initial)) offs)
                     (snd (HandleTranslationUnit rand entries code ns))) = al
              \<and> take m
                  (drop (new_start (recorded_spans entries (TraverseDecl rand ns initial)) offs + length al)
                     (snd (HandleTranslationUnit rand entries code ns)))
                 = take m (drop (offs + length key) code))
     \<and> outside_unchanged code (recorded_spans entries (TraverseDecl rand ns initial))
          (snd (HandleTranslationUnit rand entries code ns))
     \<and> int (length (snd (HandleTranslationUnit rand entries code ns)))
          = int (length code) + sum_list (map growth (recorded_spans entries (TraverseDecl rand ns initial)))
     \<and> (\<forall>(offs', len, al') \<in> set (recorded_spans entries (TraverseDecl rand ns initial)).
           \<exists>key'. (key', al') \<in> set entries \<and> len = length key'
              \<and> MainFile offs' \<in> set (nameLocations (TraverseDecl rand ns initial) key'))
     \<and> key_of (DeclRefExpr (''operator'' @ s) (MainFile offs0)) = Some s"
proof -
  let ?v = "TraverseDecl rand ns initial"
  let ?es = "recorded_spans entries ?v"
  let ?R = "snd (HandleTranslationUnit rand entries code ns)"
  from ReplaceReferences_one_pass [OF assms(2,3)]
  obtain ss where ss: "mset ss = mset ?es" "chain 0 ss" "within code ss" and R: "?R = one_pass code 0 ss"
    by (auto simp: HandleTranslationUnit_buffer)
  have set: "set ss = set ?es" using ss(1) by (rule mset_eq_setD)
  from frame_property [OF assms(2,3) ss]
  have out: "outside_unchanged code ?es ?R" by (simp add: R)
  have len: "int (length ?R) = int (length code) + sum_list (map growth ?es)"
    using length_one_pass [OF ss(2,3), of ] by (simp add: R sum_list_growth_mset [OF ss(1)])
  have ext: "\<forall>(offs', len, al') \<in> set ?es.
           \<exists>key'. (key', al') \<in> set entries \<and> len = length key'
              \<and> MainFile offs' \<in> set (nameLocations ?v key')"
    using recorded_spans_lengths by blast
  have op: "key_of (DeclRefExpr (''operator'' @ s) (MainFile offs0)) = Some s"
    by (simp add: isOperator_def)
  have occ: "(offs, length key, al) \<in> set ?es
        \<and> take (length al) (drop (new_start ?es offs) ?R) = al
        \<and> take m (drop (new_start ?es offs + length al) ?R) = take m (drop (offs + length key) code)"
    if h: "aliases ?v key = Some al \<and> MainFile offs \<in> set (nameLocations ?v key)
          \<and> offs + length key + m \<le> length code \<and> no_start_in ?es (offs + length key) m"
    for key al offs m
  proof -
    from h have al: "aliases ?v key = Some al" and lo: "MainFile offs \<in> set (nameLocations ?v key)"
      and m: "offs + length key + m \<le> length code" and ns: "no_start_in ?es (offs + length key) m"
      by simp_all
    have mem: "(offs, length key, al) \<in> set ?es"
      using enumerates_mem [OF assms(1) al] lo by (rule recorded_spans_mem)
    have before: "\<forall>(o', l', a') \<in> set ss. o' < offs \<longrightarrow> o' + l' \<le> offs"
    proof (clarify)
      fix o' l' a' assume m': "(o', l', a') \<in> set ss" and lt: "o' < offs"
      then have "apart (o', l', a') (offs, length key, al)"
        using nonoverlapping_apart [OF assms(2), of "(o', l', a')" "(offs, length key, al)"] mem set
        by auto
      with lt show "o' + l' \<le> offs" by simp
    qed
    from span_place [OF ss(2,3) _ before, of "length key" al] mem set
    obtain ys where ys: "set ys \<subseteq> set ss" "\<forall>e \<in> set ys. offs + length key \<le> fst e"
      and d: "drop (new_start ss offs) (one_pass code 0 ss) = al @ one_pass code (offs + length key) ys"
      by auto
    have d': "drop (new_start ?es offs) ?R = al @ one_pass code (offs + length key) ys"
      using d by (simp add: R new_start_mset [OF ss(1)])
    then have t1: "take (length al) (drop (new_start ?es offs) ?R) = al" by simp
    have "drop (length al) (drop (new_start ?es offs) ?R) = one_pass code (offs + length key) ys"
      using d' by simp
    then have d2: "drop (new_start ?es offs + length al) ?R = one_pass code (offs + length key) ys"
      by (simp add: add.commute)
    have later: "\<forall>e \<in> set ys. offs + length key + m \<le> fst e"
    proof
      fix e assume e: "e \<in> set ys"
      with ys(1) set have "e \<in> set ?es" by auto
      with ns have "fst e < offs + length key \<or> offs + length key + m \<le> fst e"
        by (simp add: no_start_in_def list_all_iff)
      with ys(2) e show "offs + length key + m \<le> fst e" by fastforce
    qed
    from one_pass_later_start [OF _ later, of "offs + length key" code]
    have "one_pass code (offs + length key) ys
          = take m (drop (offs + length key) code) @ one_pass code (offs + length key + m) ys"
      by simp
    moreover have "length (take m (drop (offs + length key) code)) = m" using m by simp
    ultimately have "take m (one_pass code (offs + length key) ys) = take m (drop (offs + length key) code)"
      by simp
    with d2 have t2: "take m (drop (new_start ?es offs + length al) ?R)
                      = take m (drop (offs + length key) code)" by simp
    from mem t1 t2 show ?thesis by blast
  qed
  from occ out len ext op show ?thesis by blast
qed


lemma alias_rand_count_16: "generateRandomAlias rand_count 16 = (''QHIJKLMN'', 24)"
  by (simp add: generateRandomAlias_eq rand_count_def letters_def alphanum_def upt_conv_Cons
           del: upt_Suc)

lemma alias_rand_count_24: "generateRandomAlias rand_count 24 = (''YPQRSTUV'', 32)"
  by (simp add: generateRandomAlias_eq rand_count_def letters_def alphanum_def upt_conv_Cons
           del: upt_Suc)

lemma operator_aliases:
  "aliases (TraverseDecl rand_count operator_nodes initial)
   = [''x'' \<mapsto> ''A1234567'', ''+'' \<mapsto> ''I9ABCDEF'', ''a'' \<mapsto> ''QHIJKLMN'', ''b'' \<mapsto> ''YPQRSTUV'']"
  by (simp add: operator_nodes_def VisitDeclRefExpr_def isOperator_def isPredefinedIdentifier_def
      assign_alias_def initial_def push_back_def alias_rand_count_0 alias_rand_count_8
      alias_rand_count_16 alias_rand_count_24 Let_def)

lemma operator_locations:
  "nameLocations (TraverseDecl rand_count operator_nodes initial)
   = (\<lambda>k. [])(''x'' := [MainFile 0], ''+'' := [MainFile 2], ''a'' := [MainFile 12], ''b'' := [MainFile 14])"
  by (simp add: operator_nodes_def VisitDeclRefExpr_def isOperator_def isPredefinedIdentifier_def
      assign_alias_def initial_def push_back_def alias_rand_count_0 alias_rand_count_8
      alias_rand_count_16 alias_rand_count_24 Let_def)

lemma operator_enumerates:
  "enumerates operator_entries (TraverseDecl rand_count operator_nodes initial)"
  by (auto simp: enumerates_def operator_aliases operator_entries_def)

lemma operator_spans:
  "recorded_spans operator_entries (TraverseDecl rand_count operator_nodes initial)
   = [(0, 1, ''A1234567''), (2, 1, ''I9ABCDEF''), (12, 1, ''QHIJKLMN''), (14, 1, ''YPQRSTUV'')]"
  by (simp add: recorded_spans_def operator_locations operator_entries_def map_filter_simps)

lemma operator_rewritten:
  "snd (HandleTranslationUnit rand_count operator_entries operator_code operator_nodes)
   = ''A1234567=I9ABCDEFperator+(QHIJKLMN,YPQRSTUV);''"
  by (simp add: HandleTranslationUnit_def operator_locations operator_entries_def operator_code_def
      initial_buffer_def RewriteBuffer_ReplaceText_def getMappedOffset_def Let_def)

theorem C9_key_length_extent_when_apart_witness:
  "enumerates operator_entries (TraverseDecl rand_count operator_nodes initial)
   \<and> nonoverlapping [(0, 1, ''A1234567''), (2, 1, ''I9ABCDEF''), (12, 1, ''QHIJKLMN''), (14, 1, ''YPQRSTUV'')]
   \<and> within operator_code [(0, 1, ''A1234567''), (2, 1, ''I9ABCDEF''), (12, 1, ''QHIJKLMN''), (14, 1, ''YPQRSTUV'')]
   \<and> aliases (TraverseDecl rand_count operator_nodes initial) ''+'' = Some ''I9ABCDEF''
   \<and> MainFile 2 \<in> set (nameLocations (TraverseDecl rand_count operator_nodes initial) ''+'')
   \<and> no_start_in [(0, 1, ''A1234567''), (2, 1, ''I9ABCDEF''), (12, 1, ''QHIJKLMN''), (14, 1, ''YPQRSTUV'')] 3 9
   \<and> snd (HandleTranslationUnit rand_count operator_entries operator_code operator_nodes)
       = ''A1234567=I9ABCDEFperator+(QHIJKLMN,YPQRSTUV);''
   \<and> new_start [(0, 1, ''A1234567''), (2, 1, ''I9ABCDEF''), (12, 1, ''QHIJKLMN''), (14, 1, ''YPQRSTUV'')] 2 = 9
   \<and> take 8 (drop 9 ''A1234567=I9ABCDEFperator+(QHIJKLMN,YPQRSTUV);'') = ''I9ABCDEF''
   \<and> take 9 (drop 17 ''A1234567=I9ABCDEFperator+(QHIJKLMN,YPQRSTUV);'') = ''perator+(''
   \<and> take 9 (drop 3 operator_code) = ''perator+(''
   \<and> length ''A1234567=I9ABCDEFperator+(QHIJKLMN,YPQRSTUV);'' = length operator_code + 28"
proof -
  let ?v = "TraverseDecl rand_count operator_nodes initial"
  let ?S = "[(0, 1, ''A1234567''), (2, 1, ''I9ABCDEF''), (12, 1, ''QHIJKLMN''), (14, 1, ''YPQRSTUV'')]
            :: edit list"
  have no': "nonoverlapping ?S" by simp
  have wi': "within operator_code ?S" by (simp add: within_def operator_code_def)
  have no: "nonoverlapping (recorded_spans operator_entries ?v)"
    unfolding operator_spans by (rule no')
  have wi: "within operator_code (recorded_spans operator_entries ?v)"
    unfolding operator_spans by (rule wi')
  have al: "aliases ?v ''+'' = Some ''I9ABCDEF''" by (simp add: operator_aliases)
  have lo: "MainFile 2 \<in> set (nameLocations ?v ''+'')" by (simp add: operator_locations)
  have m: "2 + length ''+'' + 9 \<le> length operator_code" by (simp add: operator_code_def)
  have ns': "no_start_in ?S 3 9" by (simp add: no_start_in_def)
  have ns: "no_start_in (recorded_spans operator_entries ?v) (2 + length ''+'') 9"
    unfolding operator_spans using ns' by simp
  have st: "new_start ?S 2 = 9" by (simp add: new_start_def growth_def)
  have oc: "take 9 (drop 3 operator_code) = ''perator+(''" by (simp add: operator_code_def)
  have gr: "sum_list (map growth ?S) = 28" by (simp add: growth_def)
  from C9_key_length_extent_when_apart [OF operator_enumerates no wi]
  have all: "\<forall>key al offs m.
            aliases ?v key = Some al \<and> MainFile offs \<in> set (nameLocations ?v key)
            \<and> offs + length key + m \<le> length operator_code
            \<and> no_start_in (recorded_spans operator_entries ?v) (offs + length key) m
          \<longrightarrow> (offs, length key, al) \<in> set (recorded_spans operator_entries ?v)
              \<and> take (length al) (drop (new_start (recorded_spans operator_entries ?v) offs)
                     (snd (HandleTranslationUnit rand_count operator_entries operator_code operator_nodes))) = al
              \<and> take m (drop (new_start (recorded_spans operator_entries ?v) offs + length al)
                     (snd (HandleTranslationUnit rand_count operator_entries operator_code operator_nodes)))
                 = take m (drop (offs + length key) operator_code)"
    and len: "int (length (snd (HandleTranslationUnit rand_count operator_entries operator_code operator_nodes)))
          = int (length operator_code) + sum_list (map growth (recorded_spans operator_entries ?v))"
    by blast+
  from all al lo m ns
  have "take (length ''I9ABCDEF'') (drop (new_start (recorded_spans operator_entries ?v) 2)
                     (snd (HandleTranslationUnit rand_count operator_entries operator_code operator_nodes)))
          = ''I9ABCDEF''
        \<and> take 9 (drop (new_start (recorded_spans operator_entries ?v) 2 + length ''I9ABCDEF'')
                     (snd (HandleTranslationUnit rand_count operator_entries operator_code operator_nodes)))
          = take 9 (drop (2 + length ''+'') operator_code)"
    by blast
  then have t: "take 8 (drop 9 ''A1234567=I9ABCDEFperator+(QHIJKLMN,YPQRSTUV);'') = ''I9ABCDEF''
      \<and> take 9 (drop 17 ''A1234567=I9ABCDEFperator+(QHIJKLMN,YPQRSTUV);'') = take 9 (drop 3 operator_code)"
    unfolding operator_spans operator_rewritten st by simp
  from len have l: "length ''A1234567=I9ABCDEFperator+(QHIJKLMN,YPQRSTUV);'' = length operator_code + 28"
    unfolding operator_spans operator_rewritten gr by linarith
  from operator_enumerates no' wi' al lo ns' operator_rewritten st t oc l
  show ?thesis by (simp only: simp_thms)
qed

lemma overlap_first_key:
  "replace_at ''x'' ''A1234567'' [MainFile 5, MainFile 26] (initial_buffer overlap_code)
   = \<lparr>Buffer = ''long A1234567=0x8AC7230489E80000+A1234567;'', Deltas = [(26, 7), (5, 7)]\<rparr>"
  by (simp add: overlap_code_def initial_buffer_def RewriteBuffer_ReplaceText_def
      getMappedOffset_def Let_def)

lemma overlap_literal_first:
  "ReplaceText (MainFile 5) (length ''x'') ''A1234567''
     (ReplaceText (MainFile 7) (length ''-8446744073709551616'') ''I9ABCDEF'' (initial_buffer overlap_code))
   = \<lparr>Buffer = ''long A1234567=I9ABCDEF;'', Deltas = [(5, 7), (7, - 12)]\<rparr>"
  by (simp add: overlap_code_def initial_buffer_def RewriteBuffer_ReplaceText_def
      getMappedOffset_def Let_def)

text \<open>
  C9 as the spec words it fails. In \<^verbatim>\<open>long x=0x8AC7230489E80000+x;\<close> the span of the
  literal, 20 characters from offset 7, reaches over the reference to \<open>x\<close>. When the
  occurrences of \<open>x\<close> are rewritten first, the replacement for the literal takes out
  19 characters of the original and the first character of the alias put for \<open>x\<close>, not
  the 20 characters of the original at its location. When the literal is rewritten first,
  the replacement for the reference to \<open>x\<close> takes out the last character of the
  literal's alias, not the \<open>x\<close> of the original.
\<close>

theorem C9_overlap_counterexample:
  "enumerates [(''x'', ''A1234567''), (''-8446744073709551616'', ''I9ABCDEF'')]
     (TraverseDecl rand_count overlap_nodes initial)
   \<and> ReplaceReferences [(''x'', ''A1234567''), (''-8446744073709551616'', ''I9ABCDEF'')]
        (TraverseDecl rand_count overlap_nodes initial) (initial_buffer overlap_code)
       = ReplaceText (MainFile 7) (length ''-8446744073709551616'') ''I9ABCDEF''
           (replace_at ''x'' ''A1234567'' [MainFile 5, MainFile 26] (initial_buffer overlap_code))
   \<and> Buffer (replace_at ''x'' ''A1234567'' [MainFile 5, MainFile 26] (initial_buffer overlap_code))
       = ''long A1234567=0x8AC7230489E80000+A1234567;''
   \<and> getMappedOffset (replace_at ''x'' ''A1234567'' [MainFile 5, MainFile 26] (initial_buffer overlap_code)) 7
       = 14
   \<and> take 20 (drop 14 ''long A1234567=0x8AC7230489E80000+A1234567;'') = ''0x8AC7230489E80000+A''
   \<and> take 20 (drop 7 overlap_code) = ''0x8AC7230489E80000+x''
   \<and> Buffer (ReplaceText (MainFile 7) (length ''-8446744073709551616'') ''I9ABCDEF''
           (replace_at ''x'' ''A1234567'' [MainFile 5, MainFile 26] (initial_buffer overlap_code)))
       = ''long A1234567=I9ABCDEF1234567;''
   \<and> ReplaceReferences [(''-8446744073709551616'', ''I9ABCDEF''), (''x'', ''A1234567'')]
        (TraverseDecl rand_count overlap_nodes initial) (initial_buffer overlap_code)
       = ReplaceText (MainFile 26) (length ''x'') ''A1234567''
           (ReplaceText (MainFile 5) (length ''x'') ''A1234567''
             (ReplaceText (MainFile 7) (length ''-8446744073709551616'') ''I9ABCDEF''
               (initial_buffer overlap_code)))
   \<and> Buffer (ReplaceText (MainFile 5) (length ''x'') ''A1234567''
             (ReplaceText (MainFile 7) (length ''-8446744073709551616'') ''I9ABCDEF''
               (initial_buffer overlap_code)))
       = ''long A1234567=I9ABCDEF;''
   \<and> getMappedOffset (ReplaceText (MainFile 5) (length ''x'') ''A1234567''
             (ReplaceText (MainFile 7) (length ''-8446744073709551616'') ''I9ABCDEF''
               (initial_buffer overlap_code))) 26
       = 21
   \<and> take 1 (drop 21 ''long A1234567=I9ABCDEF;'') = ''F''
   \<and> take 1 (drop 26 overlap_code) = ''x''"
proof -
  have e: "enumerates [(''x'', ''A1234567''), (''-8446744073709551616'', ''I9ABCDEF'')]
     (TraverseDecl rand_count overlap_nodes initial)"
    by (auto simp: enumerates_def overlap_aliases)
  have r: "ReplaceReferences [(''x'', ''A1234567''), (''-8446744073709551616'', ''I9ABCDEF'')]
        (TraverseDecl rand_count overlap_nodes initial) (initial_buffer overlap_code)
       = ReplaceText (MainFile 7) (length ''-8446744073709551616'') ''I9ABCDEF''
           (replace_at ''x'' ''A1234567'' [MainFile 5, MainFile 26] (initial_buffer overlap_code))"
    by (simp add: overlap_locations del: ReplaceText.simps replace_at.simps)
       (simp del: ReplaceText.simps)
  have g: "getMappedOffset \<lparr>Buffer = ''long A1234567=0x8AC7230489E80000+A1234567;'',
              Deltas = [(26, 7), (5, 7)]\<rparr> 7 = 14"
    by (simp add: getMappedOffset_def)
  have f: "Buffer (ReplaceText (MainFile 7) (length ''-8446744073709551616'') ''I9ABCDEF''
           \<lparr>Buffer = ''long A1234567=0x8AC7230489E80000+A1234567;'', Deltas = [(26, 7), (5, 7)]\<rparr>)
       = ''long A1234567=I9ABCDEF1234567;''"
    by (simp add: RewriteBuffer_ReplaceText_def getMappedOffset_def Let_def)
  have o: "take 20 (drop 7 overlap_code) = ''0x8AC7230489E80000+x''"
    by (simp add: overlap_code_def)
  have t: "take 20 (drop 14 ''long A1234567=0x8AC7230489E80000+A1234567;'') = ''0x8AC7230489E80000+A''"
    by simp
  have r2: "ReplaceReferences [(''-8446744073709551616'', ''I9ABCDEF''), (''x'', ''A1234567'')]
        (TraverseDecl rand_count overlap_nodes initial) (initial_buffer overlap_code)
       = ReplaceText (MainFile 26) (length ''x'') ''A1234567''
           (ReplaceText (MainFile 5) (length ''x'') ''A1234567''
             (ReplaceText (MainFile 7) (length ''-8446744073709551616'') ''I9ABCDEF''
               (initial_buffer overlap_code)))"
    by (simp add: overlap_locations del: ReplaceText.simps)
  have g2: "getMappedOffset \<lparr>Buffer = ''long A1234567=I9ABCDEF;'', Deltas = [(5, 7), (7, - 12)]\<rparr> 26
            = 21"
    by (simp add: getMappedOffset_def)
  have t2: "take 1 (drop 21 ''long A1234567=I9ABCDEF;'') = ''F''" by simp
  have o2: "take 1 (drop 26 overlap_code) = ''x''" by (simp add: overlap_code_def)
  from e r g f o t r2 g2 t2 o2 show ?thesis
    unfolding overlap_first_key overlap_literal_first by (simp only: RewriteBuffer.simps simp_thms)
qed

section \<open>One definition for each key\<close>

lemma generateRandomAlias_shape: "alias_shape (fst (generateRandomAlias rand c))"
  unfolding alias_shape_def
  using generateRandomAlias_length generateRandomAlias_hd generateRandomAlias_tl by blast

lemma visit_shape:
  assumes "\<forall>k a. aliases v k = Some a \<longrightarrow> alias_shape a"
  shows "\<forall>k a. aliases (visit rand n v) k = Some a \<longrightarrow> alias_shape a"
proof (cases "key_of n")
  case None
  with assms show ?thesis by (simp add: visit_key_of)
next
  case (Some key)
  show ?thesis
  proof (cases "aliases v key")
    case None
    with Some assms show ?thesis
      by (auto simp: visit_key_of assign_alias_absent generateRandomAlias_shape)
  next
    case (Some a)
    with \<open>key_of n = Some key\<close> assms show ?thesis
      by (simp add: visit_key_of assign_alias_present)
  qed
qed

lemma TraverseDecl_shape:
  "\<forall>k a. aliases v k = Some a \<longrightarrow> alias_shape a \<Longrightarrow>
   \<forall>k a. aliases (TraverseDecl rand ns v) k = Some a \<longrightarrow> alias_shape a"
proof (induction ns arbitrary: v)
  case Nil
  then show ?case by simp
next
  case (Cons n ns)
  from Cons.IH [OF visit_shape [OF Cons.prems]] show ?case by simp
qed

lemma enumerates_shape:
  assumes "enumerates entries (TraverseDecl rand ns initial)"
  shows "list_all (\<lambda>entry. alias_shape (snd entry)) entries"
proof -
  have "\<forall>k a. aliases (TraverseDecl rand ns initial) k = Some a \<longrightarrow> alias_shape a"
    by (rule TraverseDecl_shape) (simp add: initial_def)
  moreover have "aliases (TraverseDecl rand ns initial) k = Some a" if "(k, a) \<in> set entries" for k a
    using assms that by (metis enumerates_def map_of_is_SomeI)
  ultimately have "alias_shape a" if "(k, a) \<in> set entries" for k a
    using that by blast
  then show ?thesis by (auto simp: list_all_iff)
qed

lemma lines_acc_line:
  "CHR 0x0A \<notin> set l \<Longrightarrow> lines_acc cur (l @ CHR 0x0A # rest) = (cur @ l) # lines_acc [] rest"
  by (induction l arbitrary: cur) auto

lemma lines_of_entries:
  assumes "\<forall>entry \<in> set entries. CHR 0x0A \<notin> set (line_of_entry entry)"
  shows "lines_of (concat (map define_line entries)) = map line_of_entry entries"
  using assms
proof (induction entries)
  case Nil
  then show ?case by (simp add: lines_of_def)
next
  case (Cons entry entries)
  have d: "define_line entry = line_of_entry entry @ [CHR 0x0A]"
    by (simp add: define_line_def line_of_entry_def)
  from Cons.prems have n: "CHR 0x0A \<notin> set (line_of_entry entry)" by simp
  from Cons have "lines_acc [] (concat (map define_line entries)) = map line_of_entry entries"
    by (simp add: lines_of_def)
  with lines_acc_line [OF n, of "[]" "concat (map define_line entries)"]
  show ?case by (simp add: lines_of_def d)
qed

lemma alias_shape_no_newline:
  assumes "alias_shape a"
  shows "CHR 0x0A \<notin> set a"
proof -
  from assms have "a \<noteq> []" by (auto simp: alias_shape_def)
  then have "set a = insert (hd a) (set (tl a))" by (cases a) auto
  moreover have "CHR 0x0A \<notin> set letters" by (simp add: letters_def)
  moreover have "CHR 0x0A \<notin> set alphanum" by (simp add: alphanum_def)
  ultimately show ?thesis using assms by (auto simp: alias_shape_def)
qed

lemma prefix_line_of_entry: "prefix ''#define '' (line_of_entry entry)"
  by (simp add: line_of_entry_def)

text \<open>
  C3, as the code has it. When exactly N distinct eligible keys are observed and none of
  them contains a line break, the emitted definitions block has exactly N lines, each a
  macro-definition line made of \<open>#define\<close>, the alias of a key, a space and the key, one
  for each distinct key; each alias is the one the table holds for the key and has the
  generator's shape. (The aliases need not differ from one another.)
\<close>

theorem C3_one_line_per_key:
  assumes "enumerates entries (TraverseDecl rand ns initial)"
    and "\<forall>key \<in> observed_keys ns. CHR 0x0A \<notin> set key"
  shows "lines_of (fst (HandleTranslationUnit rand entries code ns)) = map line_of_entry entries
     \<and> definition_lines (fst (HandleTranslationUnit rand entries code ns)) = map line_of_entry entries
     \<and> length (definition_lines (fst (HandleTranslationUnit rand entries code ns)))
          = card (observed_keys ns)
     \<and> distinct (map fst entries)
     \<and> set (map fst entries) = observed_keys ns
     \<and> list_all (\<lambda>entry. alias_shape (snd entry)) entries
     \<and> list_all (\<lambda>entry. aliases (TraverseDecl rand ns initial) (fst entry) = Some (snd entry)) entries"
proof -
  let ?v = "TraverseDecl rand ns initial"
  let ?D = "fst (HandleTranslationUnit rand entries code ns)"
  from assms(1) have d: "distinct (map fst entries)" and m: "map_of entries = aliases ?v"
    by (simp_all add: enumerates_def)
  have "set (map fst entries) = dom (map_of entries)"
    by (simp add: dom_map_of_conv_image_fst)
  also have "\<dots> = observed_keys ns"
    by (simp add: m dom_TraverseDecl initial_def)
  finally have s: "set (map fst entries) = observed_keys ns" .
  have c: "card (observed_keys ns) = length entries"
    using distinct_card [OF d] s by simp
  have sh: "list_all (\<lambda>entry. alias_shape (snd entry)) entries"
    by (rule enumerates_shape [OF assms(1)])
  have l: "list_all (\<lambda>entry. aliases ?v (fst entry) = Some (snd entry)) entries"
    using d m by (auto simp: list_all_iff) (metis map_of_is_SomeI)
  have nl: "\<forall>entry \<in> set entries. CHR 0x0A \<notin> set (line_of_entry entry)"
  proof
    fix entry assume e: "entry \<in> set entries"
    then have "fst entry \<in> observed_keys ns" using s by auto
    with assms(2) have k: "CHR 0x0A \<notin> set (fst entry)" by blast
    from sh e have "alias_shape (snd entry)" by (simp add: list_all_iff)
    then have "CHR 0x0A \<notin> set (snd entry)" by (rule alias_shape_no_newline)
    with k show "CHR 0x0A \<notin> set (line_of_entry entry)"
      by (simp add: line_of_entry_def)
  qed
  have D: "?D = concat (map define_line entries)"
    by (simp add: HandleTranslationUnit_def InsertAliases_def Let_def)
  have lines: "lines_of ?D = map line_of_entry entries"
    unfolding D by (rule lines_of_entries [OF nl])
  have "filter (prefix ''#define '') (map line_of_entry entries) = map line_of_entry entries"
    by (simp add: filter_id_conv prefix_line_of_entry)
  then have dl: "definition_lines ?D = map line_of_entry entries"
    by (simp add: definition_lines_def lines)
  show ?thesis
    using lines dl c d s sh l by simp
qed

lemma example_observed: "observed_keys example_nodes = {''x'', ''5''}"
  by (simp add: observed_keys_def example_nodes_def map_filter_simps toString_5)

theorem C3_one_line_per_key_witness:
  "enumerates [(''x'', ''A1234567''), (''5'', ''I9ABCDEF'')] (TraverseDecl rand_count example_nodes initial)
   \<and> CHR 0x0A \<notin> set ''x'' \<and> CHR 0x0A \<notin> set ''5''
   \<and> lines_of (fst (HandleTranslationUnit rand_count [(''x'', ''A1234567''), (''5'', ''I9ABCDEF'')]
                     example_code example_nodes))
       = [''#define A1234567 x'', ''#define I9ABCDEF 5'']
   \<and> card (observed_keys example_nodes) = 2
   \<and> alias_shape ''A1234567'' \<and> alias_shape ''I9ABCDEF''"
proof -
  have n: "\<forall>key \<in> observed_keys example_nodes. CHR 0x0A \<notin> set key"
    by (simp add: example_observed)
  have c: "card (observed_keys example_nodes) = 2"
    by (simp add: example_observed)
  from C3_one_line_per_key [OF example_enumerates n, of example_code] example_enumerates c
  show ?thesis by (simp add: line_of_entry_def)
qed

lemma alias_rand_const_0: "generateRandomAlias (rand_const 0) c = (''A0000000'', c + 8)"
  by (simp add: generateRandomAlias_eq rand_const_def letters_def alphanum_def upt_conv_Cons
           del: upt_Suc)

lemma newline_aliases:
  "aliases (TraverseDecl rand_count newline_nodes initial)
   = [''s'' \<mapsto> ''A1234567'', CHR 0x22 # CHR 0x0A # ''#define B c'' @ [CHR 0x22] \<mapsto> ''I9ABCDEF'']"
  by (simp add: newline_nodes_def VisitVarDecl_def VisitStringLiteral_def assign_alias_def
      initial_def push_back_def alias_rand_count_0 alias_rand_count_8 Let_def)

lemma newline_observed:
  "observed_keys newline_nodes = {''s'', CHR 0x22 # CHR 0x0A # ''#define B c'' @ [CHR 0x22]}"
  by (simp add: observed_keys_def newline_nodes_def map_filter_simps)

lemma newline_block:
  "fst (HandleTranslationUnit rand_count newline_entries code newline_nodes)
   = ''#define A1234567 s'' @ [CHR 0x0A] @ ''#define I9ABCDEF '' @ [CHR 0x22, CHR 0x0A]
     @ ''#define B c'' @ [CHR 0x22, CHR 0x0A]"
  by (simp add: HandleTranslationUnit_def InsertAliases_def define_line_def newline_entries_def
      Let_def)

text \<open>
  C3 as the spec words it fails, twice. The key of a string literal is its content between
  quotes, and the content may hold a line break: for
  \<^verbatim>\<open>const char *s = "\n#define B c";\<close> two keys are observed and the definitions block
  has three lines that begin with \<open>#define\<close>. And nothing keeps two aliases apart: when
  \<^verbatim>\<open>rand()\<close> returns the same number every time, the two keys of \<^verbatim>\<open>int x = 5;\<close> get
  the same alias.
\<close>

theorem C3_lines_and_aliases_counterexample:
  "enumerates newline_entries (TraverseDecl rand_count newline_nodes initial)
   \<and> card (observed_keys newline_nodes) = 2
   \<and> definition_lines (fst (HandleTranslationUnit rand_count newline_entries newline_code newline_nodes))
       = [''#define A1234567 s'', ''#define I9ABCDEF '' @ [CHR 0x22], ''#define B c'' @ [CHR 0x22]]
   \<and> length (definition_lines (fst (HandleTranslationUnit rand_count newline_entries newline_code newline_nodes))) = 3
   \<and> enumerates [(''x'', ''A0000000''), (''5'', ''A0000000'')]
        (TraverseDecl (rand_const 0) example_nodes initial)
   \<and> observed_keys example_nodes = {''x'', ''5''}
   \<and> fst (HandleTranslationUnit (rand_const 0) [(''x'', ''A0000000''), (''5'', ''A0000000'')]
           example_code example_nodes)
       = ''#define A0000000 x'' @ [CHR 0x0A] @ ''#define A0000000 5'' @ [CHR 0x0A]
   \<and> \<not> distinct (map snd [(''x'', ''A0000000''), (''5'', ''A0000000'')])"
proof -
  have e1: "enumerates newline_entries (TraverseDecl rand_count newline_nodes initial)"
    by (auto simp: enumerates_def newline_aliases newline_entries_def)
  have c1: "card (observed_keys newline_nodes) = 2"
    by (simp add: newline_observed)
  have d1: "definition_lines (fst (HandleTranslationUnit rand_count newline_entries newline_code newline_nodes))
       = [''#define A1234567 s'', ''#define I9ABCDEF '' @ [CHR 0x22], ''#define B c'' @ [CHR 0x22]]"
    by (simp add: newline_block definition_lines_def lines_of_def)
  have "aliases (TraverseDecl (rand_const 0) example_nodes initial)
        = [''x'' \<mapsto> ''A0000000'', ''5'' \<mapsto> ''A0000000'']"
    by (simp add: example_nodes_def VisitVarDecl_def VisitIntegerLiteral_def assign_alias_def
        initial_def push_back_def alias_rand_const_0 toString_5 Let_def)
  then have e2: "enumerates [(''x'', ''A0000000''), (''5'', ''A0000000'')]
     (TraverseDecl (rand_const 0) example_nodes initial)"
    by (auto simp: enumerates_def)
  have b2: "fst (HandleTranslationUnit (rand_const 0) [(''x'', ''A0000000''), (''5'', ''A0000000'')]
           example_code example_nodes)
       = ''#define A0000000 x'' @ [CHR 0x0A] @ ''#define A0000000 5'' @ [CHR 0x0A]"
    by (simp add: HandleTranslationUnit_def InsertAliases_def define_line_def Let_def)
  show ?thesis
    using e1 c1 d1 e2 b2 by (simp add: example_observed)
qed

section \<open>The round trip\<close>

lemma expand_gap:
  "(\<forall>j < length g. alias_at entries (drop j (g @ r)) = None) \<Longrightarrow>
   expand_aliases entries (g @ r) = g @ expand_aliases entries r"
proof (induction g)
  case Nil
  then show ?case by simp
next
  case (Cons c g)
  from Cons.prems have "alias_at entries (drop 0 ((c # g) @ r)) = None" by blast
  then have h: "alias_at entries (c # g @ r) = None" by simp
  have "\<forall>j < length g. alias_at entries (drop j (g @ r)) = None"
  proof (intro allI impI)
    fix j assume "j < length g"
    then have "Suc j < length (c # g)" by simp
    with Cons.prems have "alias_at entries (drop (Suc j) ((c # g) @ r)) = None" by blast
    then show "alias_at entries (drop j (g @ r)) = None" by simp
  qed
  from Cons.IH [OF this] h show ?case
    by (simp add: expand_aliases.simps)
qed

lemma expand_alias:
  assumes "a \<noteq> []" and "alias_at entries (a @ r) = Some (key, a)"
  shows "expand_aliases entries (a @ r) = key @ expand_aliases entries r"
proof -
  from assms(1) obtain c cs where "a @ r = c # cs" by (cases a) auto
  with assms(2) show ?thesis
    by (metis (mono_tags, lifting) append_eq_conv_conj case_prod_conv expand_aliases.simps(2) option.simps(5))
qed

lemma find_unique:
  "distinct (map snd entries) \<Longrightarrow> (key, a) \<in> set entries \<Longrightarrow>
   find (\<lambda>(k, a'). a' = a) entries = Some (key, a)"
proof (induction entries)
  case Nil
  then show ?case by simp
next
  case (Cons x entries)
  then show ?case by (cases x) (auto simp: image_iff)
qed

lemma alias_at_own:
  assumes "list_all (\<lambda>entry. alias_shape (snd entry)) entries" and "distinct (map snd entries)"
    and "(key, a) \<in> set entries"
  shows "alias_at entries (a @ r) = Some (key, a)"
proof -
  have len: "length a' = 8" if "(k, a') \<in> set entries" for k a'
    using assms(1) that by (auto simp: list_all_iff alias_shape_def)
  have "(a' \<noteq> [] \<and> prefix a' (a @ r)) = (a' = a)" if "(k, a') \<in> set entries" for k a'
  proof -
    have la: "length a' = length a" using len [OF that] len [OF assms(3)] by simp
    have "a' = a" if "prefix a' (a @ r)"
    proof -
      from that obtain zs where "a @ r = a' @ zs" by (auto simp: prefix_def)
      with la show ?thesis by (metis append_eq_append_conv)
    qed
    moreover have "a \<noteq> []" using len [OF assms(3)] by auto
    ultimately show ?thesis by auto
  qed
  then have "find (\<lambda>(k, a'). a' \<noteq> [] \<and> prefix a' (a @ r)) entries = find (\<lambda>(k, a'). a' = a) entries"
    by (intro find_cong) auto
  with find_unique [OF assms(2,3)] show ?thesis by (simp add: alias_at_def)
qed

lemma expand_one_pass:
  assumes "chain pos ss" and "within code ss" and "pos \<le> length code"
    and "\<forall>(o1, l1, a1) \<in> set ss. a1 \<noteq> [] \<and> (\<forall>r. alias_at entries (a1 @ r) = Some (take l1 (drop o1 code), a1))"
    and "\<forall>i. pos \<le> i \<and> i < length code \<and> \<not> covered ss i \<longrightarrow>
           alias_at entries (one_pass code i (filter (\<lambda>e. \<not> fst e \<le> i) ss)) = None"
  shows "expand_aliases entries (one_pass code pos ss) = drop pos code"
  using assms
proof (induction ss arbitrary: pos)
  case Nil
  have "\<forall>j < length (drop pos code). alias_at entries (drop j (drop pos code @ [])) = None"
  proof (intro allI impI)
    fix j assume "j < length (drop pos code)"
    then have "pos \<le> j + pos \<and> j + pos < length code \<and> \<not> covered [] (j + pos)"
      by (simp add: covered_def)
    with Nil.prems(5) have "alias_at entries (one_pass code (j + pos) []) = None" by simp
    then show "alias_at entries (drop j (drop pos code @ [])) = None" by simp
  qed
  from expand_gap [OF this] show ?case by (simp add: expand_aliases.simps)
next
  case (Cons x ss)
  obtain o1 l1 a1 where x: "x = (o1, l1, a1)" by (cases x)
  from Cons.prems(1) x have c: "pos \<le> o1" "chain (max (o1 + l1) (Suc o1)) ss" by auto
  from Cons.prems(2) x have w: "o1 + l1 \<le> length code" "within code ss"
    by (simp_all add: within_def)
  have ch: "chain (o1 + l1) ss" using c(2) by (rule chain_mono) simp
  from Cons.prems(4) x have a1: "a1 \<noteq> []"
    and key: "\<And>r. alias_at entries (a1 @ r) = Some (take l1 (drop o1 code), a1)" by auto
  let ?g = "take (o1 - pos) (drop pos code)"
  let ?S = "one_pass code (o1 + l1) ss"
  have starts: "o1 < fst e" if "e \<in> set ss" for e
    using chain_starts [OF c(2) that] by simp
  have gap: "\<forall>j < length ?g. alias_at entries (drop j (?g @ a1 @ ?S)) = None"
  proof (intro allI impI)
    fix j assume j: "j < length ?g"
    let ?i = "pos + j"
    from j w(1) have i: "?i < o1" "?i < length code" by simp_all
    have nc: "\<not> covered (x # ss) ?i"
      using i(1) starts by (fastforce simp: covered_def list_ex_iff x)
    have all: "filter (\<lambda>e. \<not> fst e \<le> ?i) (x # ss) = x # ss"
      using i(1) starts by (fastforce simp: filter_id_conv x)
    from Cons.prems(5) nc i(2) all
    have none: "alias_at entries (one_pass code ?i (x # ss)) = None"
      by (metis le_add1)
    have "\<forall>e \<in> set (x # ss). ?i \<le> fst e"
      using i(1) starts by (fastforce simp: x)
    from one_pass_later_start [OF _ this, of pos code]
    have "one_pass code pos (x # ss) = take j (drop pos code) @ one_pass code ?i (x # ss)"
      by simp
    moreover have "length (take j (drop pos code)) = j" using i(2) by simp
    ultimately have "drop j (one_pass code pos (x # ss)) = one_pass code ?i (x # ss)"
      by (metis append_eq_conv_conj)
    with none show "alias_at entries (drop j (?g @ a1 @ ?S)) = None" by (simp add: x)
  qed
  have K': "\<forall>(o1, l1, a1) \<in> set ss. a1 \<noteq> [] \<and> (\<forall>r. alias_at entries (a1 @ r) = Some (take l1 (drop o1 code), a1))"
    using Cons.prems(4) by simp
  have G': "\<forall>i. o1 + l1 \<le> i \<and> i < length code \<and> \<not> covered ss i \<longrightarrow>
           alias_at entries (one_pass code i (filter (\<lambda>e. \<not> fst e \<le> i) ss)) = None"
  proof (intro allI impI)
    fix i assume i: "o1 + l1 \<le> i \<and> i < length code \<and> \<not> covered ss i"
    then have "\<not> covered (x # ss) i" by (simp add: covered_def x)
    moreover have "filter (\<lambda>e. \<not> fst e \<le> i) (x # ss) = filter (\<lambda>e. \<not> fst e \<le> i) ss"
      using i by (simp add: x)
    moreover have "pos \<le> i" using i c(1) by simp
    ultimately show "alias_at entries (one_pass code i (filter (\<lambda>e. \<not> fst e \<le> i) ss)) = None"
      using Cons.prems(5) i by metis
  qed
  have IH: "expand_aliases entries ?S = drop (o1 + l1) code"
    by (rule Cons.IH [OF ch w(2) w(1) K' G'])
  have "expand_aliases entries (one_pass code pos (x # ss))
        = ?g @ expand_aliases entries (a1 @ ?S)"
    using expand_gap [OF gap] by (simp add: x)
  also have "\<dots> = ?g @ take l1 (drop o1 code) @ drop (o1 + l1) code"
    using expand_alias [OF a1 key] IH by simp
  also have "take l1 (drop o1 code) @ drop (o1 + l1) code = drop o1 code"
    by (metis add.commute append_take_drop_id drop_drop)
  also have "?g @ drop o1 code = drop pos code"
    using c(1) by (metis append_take_drop_id drop_drop le_add_diff_inverse2)
  finally show ?case .
qed


lemma one_pass_drop_index:
  assumes "chain 0 ss" and "within code ss" and "i < length code" and "\<not> covered ss i"
  shows "drop (new_index ss i) (one_pass code 0 ss)
         = one_pass code i (filter (\<lambda>e. \<not> fst e \<le> i) ss)"
proof -
  have ends: "\<forall>(o', l', a') \<in> set ss. o' \<le> i \<longrightarrow> o' + l' \<le> i"
    using assms(4) by (fastforce simp: covered_def list_ex_iff)
  have "drop (nat (int i - int 0 + sum_list (map growth (filter (\<lambda>e. fst e \<le> i) ss))))
           (one_pass code 0 ss) = one_pass code i (filter (\<lambda>e. \<not> fst e \<le> i) ss)"
    using one_pass_drop [OF assms(1,2), of i "\<lambda>o'. o' \<le> i"] assms(3) ends by simp
  then show ?thesis by (simp add: new_index_def)
qed

lemma spelled_mem:
  assumes "spelled code entries v" and "(key, al) \<in> set entries"
    and "MainFile offs \<in> set (nameLocations v key)"
  shows "take (length key) (drop offs code) = key"
proof -
  from assms(1,2) have "list_all (spelled_at code key) (nameLocations v key)"
    by (auto simp: spelled_def list_all_iff)
  with assms(3) have "spelled_at code key (MainFile offs)" unfolding list_all_iff by blast
  then show ?thesis by simp
qed

text \<open>
  C2, as the code has it. Substituting every alias in the rewritten output with the key of
  its definition gives back the original buffer when, besides the recorded spans being
  pairwise apart and within the buffer, the original text at every recorded location is
  the key itself, the aliases of different keys differ, and no alias begins at an
  unchanged character of the rewritten buffer.
\<close>

theorem C2_round_trip_when_spelled:
  assumes "enumerates entries (TraverseDecl rand ns initial)"
    and "nonoverlapping (recorded_spans entries (TraverseDecl rand ns initial))"
    and "within code (recorded_spans entries (TraverseDecl rand ns initial))"
    and "spelled code entries (TraverseDecl rand ns initial)"
    and "distinct (map snd entries)"
    and "alias_free_outside entries code (recorded_spans entries (TraverseDecl rand ns initial))
           (snd (HandleTranslationUnit rand entries code ns))"
  shows "fst (HandleTranslationUnit rand entries code ns) = concat (map define_line entries)
     \<and> expand_aliases entries (snd (HandleTranslationUnit rand entries code ns)) = code"
proof -
  let ?v = "TraverseDecl rand ns initial"
  let ?es = "recorded_spans entries ?v"
  let ?R = "snd (HandleTranslationUnit rand entries code ns)"
  from ReplaceReferences_one_pass [OF assms(2,3)]
  obtain ss where ss: "mset ss = mset ?es" "chain 0 ss" "within code ss" and R: "?R = one_pass code 0 ss"
    by (auto simp: HandleTranslationUnit_buffer)
  have set: "set ss = set ?es" using ss(1) by (rule mset_eq_setD)
  have shape: "list_all (\<lambda>entry. alias_shape (snd entry)) entries"
    by (rule enumerates_shape [OF assms(1)])
  have K: "\<forall>(o1, l1, a1) \<in> set ss.
             a1 \<noteq> [] \<and> (\<forall>r. alias_at entries (a1 @ r) = Some (take l1 (drop o1 code), a1))"
  proof (clarify)
    fix o1 l1 a1 assume "(o1, l1, a1) \<in> set ss"
    with set have "(o1, l1, a1) \<in> set ?es" by simp
    from recorded_spans_lengths [OF this]
    obtain key where key: "(key, a1) \<in> set entries" "l1 = length key"
      "MainFile o1 \<in> set (nameLocations ?v key)" by blast
    have "take l1 (drop o1 code) = key"
      using spelled_mem [OF assms(4) key(1,3)] key(2) by simp
    moreover have "a1 \<noteq> []"
      using shape key(1) by (auto simp: list_all_iff alias_shape_def)
    ultimately show "a1 \<noteq> [] \<and> (\<forall>r. alias_at entries (a1 @ r) = Some (take l1 (drop o1 code), a1))"
      using alias_at_own [OF shape assms(5) key(1)] by simp
  qed
  have G: "\<forall>i. 0 \<le> i \<and> i < length code \<and> \<not> covered ss i \<longrightarrow>
           alias_at entries (one_pass code i (filter (\<lambda>e. \<not> fst e \<le> i) ss)) = None"
  proof (intro allI impI)
    fix i assume i: "0 \<le> i \<and> i < length code \<and> \<not> covered ss i"
    then have "\<not> covered ?es i" by (simp add: covered_mset [OF ss(1)])
    with assms(6) i have "alias_at entries (drop (new_index ?es i) ?R) = None"
      by (auto simp: alias_free_outside_def list_all_iff)
    then show "alias_at entries (one_pass code i (filter (\<lambda>e. \<not> fst e \<le> i) ss)) = None"
      using one_pass_drop_index [OF ss(2,3), of i] i
      by (simp add: R new_index_mset [OF ss(1)])
  qed
  have "expand_aliases entries (one_pass code 0 ss) = drop 0 code"
    by (rule expand_one_pass [OF ss(2,3) _ K G]) simp
  then show ?thesis
    by (simp add: R [symmetric]) (simp add: HandleTranslationUnit_def InsertAliases_def Let_def)
qed

theorem C2_round_trip_when_spelled_witness:
  "enumerates [(''x'', ''A1234567''), (''5'', ''I9ABCDEF'')] (TraverseDecl rand_count example_nodes initial)
   \<and> nonoverlapping [(4, 1, ''A1234567''), (8, 1, ''I9ABCDEF'')]
   \<and> within example_code [(4, 1, ''A1234567''), (8, 1, ''I9ABCDEF'')]
   \<and> spelled example_code [(''x'', ''A1234567''), (''5'', ''I9ABCDEF'')]
        (TraverseDecl rand_count example_nodes initial)
   \<and> distinct (map snd [(''x'', ''A1234567''), (''5'', ''I9ABCDEF'')])
   \<and> alias_free_outside [(''x'', ''A1234567''), (''5'', ''I9ABCDEF'')] example_code
        [(4, 1, ''A1234567''), (8, 1, ''I9ABCDEF'')] ''int A1234567 = I9ABCDEF;''
   \<and> expand_aliases [(''x'', ''A1234567''), (''5'', ''I9ABCDEF'')] ''int A1234567 = I9ABCDEF;''
       = example_code"
proof -
  let ?E = "[(''x'', ''A1234567''), (''5'', ''I9ABCDEF'')]"
  let ?v = "TraverseDecl rand_count example_nodes initial"
  have no': "nonoverlapping [(4, 1, ''A1234567''), (8, 1, ''I9ABCDEF'')]"
    by simp
  have wi': "within example_code [(4, 1, ''A1234567''), (8, 1, ''I9ABCDEF'')]"
    by (simp add: within_def example_code_def)
  have af': "alias_free_outside ?E example_code [(4, 1, ''A1234567''), (8, 1, ''I9ABCDEF'')]
               ''int A1234567 = I9ABCDEF;''"
    by (simp add: alias_free_outside_def example_code_def covered_def new_index_def growth_def
        alias_at_def upt_conv_Cons del: upt_Suc)
  have rw: "snd (HandleTranslationUnit rand_count ?E example_code example_nodes)
            = ''int A1234567 = I9ABCDEF;''"
    by (simp add: example_rewritten)
  have no: "nonoverlapping (recorded_spans ?E ?v)"
    unfolding example_spans by (rule no')
  have wi: "within example_code (recorded_spans ?E ?v)"
    unfolding example_spans by (rule wi')
  have sp: "spelled example_code ?E ?v"
    by (simp add: spelled_def example_locations example_code_def)
  have di: "distinct (map snd ?E)" by simp
  have af: "alias_free_outside ?E example_code (recorded_spans ?E ?v)
              (snd (HandleTranslationUnit rand_count ?E example_code example_nodes))"
    unfolding example_spans rw by (rule af')
  from C2_round_trip_when_spelled [OF example_enumerates no wi sp di af]
  have "expand_aliases ?E (snd (HandleTranslationUnit rand_count ?E example_code example_nodes))
        = example_code" ..
  then have rt: "expand_aliases ?E ''int A1234567 = I9ABCDEF;'' = example_code"
    unfolding rw .
  from example_enumerates no' wi' sp di af' rt show ?thesis by blast
qed

lemma toString_16: "APInt_toString10 \<lparr>BitWidth = 32, VAL = 16\<rparr> True = ''16''"
  by (simp add: APInt_toString10_def isNegative_def digits_loop.simps Digits_def)

lemma hex_aliases:
  "aliases (TraverseDecl rand_count hex_nodes initial) = [''x'' \<mapsto> ''A1234567'', ''16'' \<mapsto> ''I9ABCDEF'']"
  by (simp add: hex_nodes_def VisitVarDecl_def VisitIntegerLiteral_def assign_alias_def initial_def
      push_back_def alias_rand_count_0 alias_rand_count_8 toString_16 Let_def)

lemma hex_locations:
  "nameLocations (TraverseDecl rand_count hex_nodes initial)
   = (\<lambda>k. [])(''x'' := [MainFile 4], ''16'' := [MainFile 6])"
  by (simp add: hex_nodes_def VisitVarDecl_def VisitIntegerLiteral_def assign_alias_def initial_def
      push_back_def alias_rand_count_0 alias_rand_count_8 toString_16 Let_def)

lemma hex_rewritten_1:
  "HandleTranslationUnit rand_count [(''x'', ''A1234567''), (''16'', ''I9ABCDEF'')] hex_code hex_nodes
   = (''#define A1234567 x'' @ [CHR 0x0A] @ ''#define I9ABCDEF 16'' @ [CHR 0x0A], ''int A1234567=I9ABCDEF10;'')"
  by (simp add: HandleTranslationUnit_def hex_locations InsertAliases_def define_line_def
      hex_code_def initial_buffer_def RewriteBuffer_ReplaceText_def getMappedOffset_def Let_def)

lemma hex_rewritten_2:
  "HandleTranslationUnit rand_count [(''16'', ''I9ABCDEF''), (''x'', ''A1234567'')] hex_code hex_nodes
   = (''#define I9ABCDEF 16'' @ [CHR 0x0A] @ ''#define A1234567 x'' @ [CHR 0x0A], ''int A1234567=I9ABCDEF10;'')"
  by (simp add: HandleTranslationUnit_def hex_locations InsertAliases_def define_line_def
      hex_code_def initial_buffer_def RewriteBuffer_ReplaceText_def getMappedOffset_def Let_def)

lemma hex_expanded_1:
  "expand_aliases [(''x'', ''A1234567''), (''16'', ''I9ABCDEF'')] ''int A1234567=I9ABCDEF10;'' = ''int x=1610;''"
  by (simp add: expand_aliases.simps alias_at_def)

lemma hex_expanded_2:
  "expand_aliases [(''16'', ''I9ABCDEF''), (''x'', ''A1234567'')] ''int A1234567=I9ABCDEF10;'' = ''int x=1610;''"
  by (simp add: expand_aliases.simps alias_at_def)

text \<open>
  C2 as the spec words it fails. In \<^verbatim>\<open>int x=0x10;\<close> the literal's key is \<open>16\<close>: two
  characters of \<^verbatim>\<open>0x10\<close> are replaced by the alias, and putting the key back for the
  alias gives \<^verbatim>\<open>int x=1610;\<close>, in either order of the alias table.
\<close>

theorem C2_hex_literal_counterexample:
  "enumerates [(''x'', ''A1234567''), (''16'', ''I9ABCDEF'')] (TraverseDecl rand_count hex_nodes initial)
   \<and> enumerates [(''16'', ''I9ABCDEF''), (''x'', ''A1234567'')] (TraverseDecl rand_count hex_nodes initial)
   \<and> snd (HandleTranslationUnit rand_count [(''x'', ''A1234567''), (''16'', ''I9ABCDEF'')] hex_code hex_nodes)
       = ''int A1234567=I9ABCDEF10;''
   \<and> expand_aliases [(''x'', ''A1234567''), (''16'', ''I9ABCDEF'')]
        (snd (HandleTranslationUnit rand_count [(''x'', ''A1234567''), (''16'', ''I9ABCDEF'')] hex_code hex_nodes))
       = ''int x=1610;''
   \<and> expand_aliases [(''x'', ''A1234567''), (''16'', ''I9ABCDEF'')]
        (snd (HandleTranslationUnit rand_count [(''x'', ''A1234567''), (''16'', ''I9ABCDEF'')] hex_code hex_nodes))
       \<noteq> hex_code
   \<and> expand_aliases [(''16'', ''I9ABCDEF''), (''x'', ''A1234567'')]
        (snd (HandleTranslationUnit rand_count [(''16'', ''I9ABCDEF''), (''x'', ''A1234567'')] hex_code hex_nodes))
       \<noteq> hex_code"
proof -
  have e1: "enumerates [(''x'', ''A1234567''), (''16'', ''I9ABCDEF'')] (TraverseDecl rand_count hex_nodes initial)"
    by (auto simp: enumerates_def hex_aliases)
  have e2: "enumerates [(''16'', ''I9ABCDEF''), (''x'', ''A1234567'')] (TraverseDecl rand_count hex_nodes initial)"
    by (auto simp: enumerates_def hex_aliases)
  have ne: "''int x=1610;'' \<noteq> hex_code" by (simp add: hex_code_def)
  show ?thesis
    using e1 e2 ne by (simp add: hex_rewritten_1 hex_rewritten_2 hex_expanded_1 hex_expanded_2)
qed

end
